theory Spec2Isabelle
  imports Complex_Main "HOL-Library.Sublist" "HOL-Library.Word"
begin

section \<open>JavaScript values\<close>

text \<open>
  A JavaScript number is an IEEE 754 double: finite, or one of \<open>NaN\<close>, \<open>Infinity\<close>,
  \<open>-Infinity\<close>. A finite double is modelled by the real number it denotes (the sign of
  a zero is not represented), and an arithmetic operation rounds its exact result to
  the nearest double, ties to even, as the machine does.

  \<open>ilog2 x\<close> is the exponent of a positive \<open>x\<close>, the integer \<open>e\<close> with
  \<open>2^e \<le> x < 2^(e+1)\<close>. Around \<open>x\<close> the doubles are the multiples of \<open>2^(e - 52)\<close>,
  where \<open>e\<close> is not taken below \<open>-1022\<close>, the exponent of the smallest normal number;
  \<open>round_even\<close> picks the nearest multiple, the even one of two that are equally near;
  and a rounded magnitude of \<open>2^1024\<close> or more is an infinity. \<open>double_of x\<close> is the
  double so obtained from the real \<open>x\<close>.
\<close>

datatype jsnum = NaN | PInf | NInf | Fin real

function ilog2 :: "real \<Rightarrow> int" where
  "ilog2 x = (if x \<le> 0 then 0
              else if 2 \<le> x then ilog2 (x / 2) + 1
              else if x < 1 then ilog2 (2 * x) - 1
              else 0)"
  by pat_completeness auto
termination
proof (relation "measure (\<lambda>x. nat (2 * \<lceil>1 / x\<rceil> + \<lfloor>x\<rfloor>))")
  show "wf (measure (\<lambda>x. nat (2 * \<lceil>1 / x\<rceil> + \<lfloor>x\<rfloor>)))" by simp
next
  fix x :: real
  assume x: "\<not> x \<le> 0" "2 \<le> x"
  then have a: "\<lceil>1 / x\<rceil> = 1" "\<lceil>1 / (x / 2)\<rceil> = 1"
    by (auto simp: ceiling_eq_iff field_simps)
  have "\<lfloor>x / 2\<rfloor> < \<lfloor>x\<rfloor>" "0 \<le> \<lfloor>x / 2\<rfloor>" "2 \<le> \<lfloor>x\<rfloor>" using x(2) by linarith+
  then have "nat (2 * 1 + \<lfloor>x / 2\<rfloor>) < nat (2 * 1 + \<lfloor>x\<rfloor>)" by linarith
  then show "(x / 2, x) \<in> measure (\<lambda>x. nat (2 * \<lceil>1 / x\<rceil> + \<lfloor>x\<rfloor>))"
    unfolding in_measure a .
next
  fix x :: real
  assume x: "\<not> x \<le> 0" "\<not> 2 \<le> x" "x < 1"
  have f0: "\<lfloor>x\<rfloor> = 0" using x by (simp add: floor_eq_iff)
  show "(2 * x, x) \<in> measure (\<lambda>x. nat (2 * \<lceil>1 / x\<rceil> + \<lfloor>x\<rfloor>))"
  proof (cases "1 / 2 \<le> x")
    case True
    then have "\<lceil>1 / x\<rceil> = 2" "\<lceil>1 / (2 * x)\<rceil> = 1" "\<lfloor>2 * x\<rfloor> = 1"
      using x by (auto simp: ceiling_eq_iff floor_eq_iff field_simps)
    then show ?thesis unfolding in_measure f0 by simp
  next
    case False
    then have h: "x < 1 / 2" by simp
    have f2: "\<lfloor>2 * x\<rfloor> = 0" using x h by (simp add: floor_eq_iff)
    define y where "y = 1 / x"
    have e: "1 / (2 * x) = y / 2" by (simp add: y_def)
    have y: "2 < y" using x h by (simp add: y_def field_simps)
    have c3: "2 < \<lceil>y\<rceil>" using y by (simp add: less_ceiling_iff)
    have "y \<le> of_int \<lceil>y\<rceil>" by (rule le_of_int_ceiling)
    moreover have "(3::real) \<le> of_int \<lceil>y\<rceil>" using c3 by linarith
    ultimately have "y / 2 \<le> of_int \<lceil>y\<rceil> - 1" by linarith
    then have "y / 2 \<le> of_int (\<lceil>y\<rceil> - 1)" by simp
    then have "\<lceil>y / 2\<rceil> \<le> \<lceil>y\<rceil> - 1" by (rule ceiling_le)
    moreover have "0 < \<lceil>y / 2\<rceil>" using y by (simp add: less_ceiling_iff)
    ultimately have "nat (2 * \<lceil>y / 2\<rceil> + 0) < nat (2 * \<lceil>y\<rceil> + 0)" by linarith
    then show ?thesis unfolding in_measure f0 f2 e y_def .
  qed
qed

declare ilog2.simps [simp del]

definition round_even :: "real \<Rightarrow> int" where
  "round_even y =
     (let f = \<lfloor>y\<rfloor>; r = y - of_int f
      in if r < 1 / 2 then f else if 1 / 2 < r then f + 1 else if even f then f else f + 1)"

definition double_of :: "real \<Rightarrow> jsnum" where
  "double_of x =
     (if x = 0 then Fin 0
      else
        let e = max (ilog2 \<bar>x\<bar>) (- 1022);
            ulp = 2 powi (e - 52);
            r = of_int (round_even (\<bar>x\<bar> / ulp)) * ulp
        in if 2 powi 1024 \<le> r then (if 0 < x then PInf else NInf)
           else Fin (if 0 < x then r else - r))"

text \<open>The reals that are doubles: those that rounding leaves as they are.\<close>

definition is_double :: "real \<Rightarrow> bool" where
  "is_double x = (double_of x = Fin x)"

text \<open>
  Division and multiplication. What division by zero, \<open>NaN\<close> and the infinities do is
  written out, because \<open>x / 0\<close> is \<open>0\<close> in HOL and \<open>Infinity\<close> or \<open>NaN\<close> in JavaScript.
\<close>

fun jdiv :: "jsnum \<Rightarrow> jsnum \<Rightarrow> jsnum" where
  "jdiv (Fin a) (Fin b) =
     (if b = 0 then (if a = 0 then NaN else if 0 < a then PInf else NInf)
      else double_of (a / b))"
| "jdiv (Fin a) PInf = Fin 0"
| "jdiv (Fin a) NInf = Fin 0"
| "jdiv PInf (Fin b) = (if b < 0 then NInf else PInf)"
| "jdiv NInf (Fin b) = (if b < 0 then PInf else NInf)"
| "jdiv _ _ = NaN"

fun jmul :: "jsnum \<Rightarrow> jsnum \<Rightarrow> jsnum" where
  "jmul (Fin a) (Fin b) = double_of (a * b)"
| "jmul (Fin a) PInf = (if a = 0 then NaN else if 0 < a then PInf else NInf)"
| "jmul (Fin a) NInf = (if a = 0 then NaN else if 0 < a then NInf else PInf)"
| "jmul PInf (Fin b) = (if b = 0 then NaN else if 0 < b then PInf else NInf)"
| "jmul NInf (Fin b) = (if b = 0 then NaN else if 0 < b then NInf else PInf)"
| "jmul PInf PInf = PInf"
| "jmul PInf NInf = NInf"
| "jmul NInf PInf = NInf"
| "jmul NInf NInf = PInf"
| "jmul _ _ = NaN"

text \<open>The comparisons \<open><\<close> and \<open><=\<close>: false as soon as one side is \<open>NaN\<close>.\<close>

fun jlt :: "jsnum \<Rightarrow> jsnum \<Rightarrow> bool" where
  "jlt (Fin a) (Fin b) = (a < b)"
| "jlt (Fin a) PInf = True"
| "jlt NInf (Fin b) = True"
| "jlt NInf PInf = True"
| "jlt _ _ = False"

fun jle :: "jsnum \<Rightarrow> jsnum \<Rightarrow> bool" where
  "jle (Fin a) (Fin b) = (a \<le> b)"
| "jle (Fin a) PInf = True"
| "jle NInf (Fin b) = True"
| "jle NInf PInf = True"
| "jle NInf NInf = True"
| "jle PInf PInf = True"
| "jle _ _ = False"

text \<open>\<open>Math.min\<close> of two arguments, and of a list (\<open>Math.min()\<close> is \<open>Infinity\<close>).\<close>

fun jmin :: "jsnum \<Rightarrow> jsnum \<Rightarrow> jsnum" where
  "jmin NaN _ = NaN"
| "jmin _ NaN = NaN"
| "jmin NInf _ = NInf"
| "jmin _ NInf = NInf"
| "jmin PInf y = y"
| "jmin x PInf = x"
| "jmin (Fin a) (Fin b) = Fin (min a b)"

definition Math_min :: "jsnum list \<Rightarrow> jsnum" where
  "Math_min xs = foldr jmin xs PInf"

fun Math_floor :: "jsnum \<Rightarrow> jsnum" where
  "Math_floor (Fin a) = Fin (of_int \<lfloor>a\<rfloor>)"
| "Math_floor x = x"

text \<open>
  The values that reach the library: primitives, arrays, and plain objects as the list
  of their properties.
\<close>

datatype jsval =
    Undefined
  | Null
  | Bool bool
  | Num jsnum
  | Str string
  | Arr "jsval list"
  | Obj "(string \<times> jsval) list"

datatype error = InvalidArgument | NotAnImage | IOFailure | TypeError

text \<open>Sequencing of computations that may throw.\<close>

definition ebind :: "error + 'a \<Rightarrow> ('a \<Rightarrow> error + 'b) \<Rightarrow> error + 'b" where
  "ebind m f = (case m of Inl e \<Rightarrow> Inl e | Inr a \<Rightarrow> f a)"

text \<open>
  The destructuring \<open>const { k } = v\<close>: a missing property is \<open>undefined\<close>, and so is any
  property of this kind on a primitive or an array; destructuring \<open>null\<close> or \<open>undefined\<close>
  throws a \<open>TypeError\<close>.
\<close>

fun destructure :: "jsval \<Rightarrow> string \<Rightarrow> error + jsval" where
  "destructure (Obj kvs) k = Inr (case map_of kvs k of None \<Rightarrow> Undefined | Some v \<Rightarrow> v)"
| "destructure Undefined k = Inl TypeError"
| "destructure Null k = Inl TypeError"
| "destructure _ k = Inr Undefined"

text \<open>The test of \<open>if (v)\<close>.\<close>

fun truthy :: "jsval \<Rightarrow> bool" where
  "truthy Undefined = False"
| "truthy Null = False"
| "truthy (Bool b) = b"
| "truthy (Num n) = (n \<noteq> NaN \<and> n \<noteq> Fin 0)"
| "truthy (Str s) = (s \<noteq> [])"
| "truthy (Arr _) = True"
| "truthy (Obj _) = True"

section \<open>The validation helper\<close>

text \<open>
  Modelled from the spec: \<open>is.invalidType(name, type, value)\<close> of \<open>lib/is.js\<close>, which is
  not among the sources. The spec describes its failure as InvalidArgument, the "wrong
  type/shape of an input", and asks to replace the helper by typed function signatures;
  every call names one of the types \<open>'object'\<close>, \<open>'number'\<close>, \<open>'string'\<close>, \<open>'array'\<close>.
  The model throws InvalidArgument when the value is not of the named type and does
  nothing otherwise. An array is not taken for an \<open>'object'\<close>, nor is \<open>null\<close>; a number
  is a \<open>'number'\<close> whatever its value. (The spec also words the check of the dimension
  calculator as one for a positive number: that reading is \<open>invalidPositive\<close>, further
  down.)
\<close>

fun typeName :: "jsval \<Rightarrow> string" where
  "typeName Undefined = ''undefined''"
| "typeName Null = ''null''"
| "typeName (Bool _) = ''boolean''"
| "typeName (Num _) = ''number''"
| "typeName (Str _) = ''string''"
| "typeName (Arr _) = ''array''"
| "typeName (Obj _) = ''object''"

definition invalidType :: "string \<Rightarrow> string \<Rightarrow> jsval \<Rightarrow> error + unit" where
  "invalidType name type v = (if typeName v = type then Inr () else Inl InvalidArgument)"

section \<open>Dimension calculator\<close>

record dimensions =
  width :: jsnum
  height :: jsnum

text \<open>
  \<open>calculateOptimalDimensions\<close>: the six validations in the order of the source, then
  \<open>k = Math.min(1, maxWidth / width, maxHeight / height)\<close> and the two floors. The last
  case of the match is not reached after the validations.
\<close>

definition calculateOptimalDimensions :: "jsval \<Rightarrow> jsval \<Rightarrow> error + dimensions" where
  "calculateOptimalDimensions dims maxDimensions =
     ebind (invalidType ''dimensions'' ''object'' dims) (\<lambda>_.
     ebind (invalidType ''maxDimensions'' ''object'' maxDimensions) (\<lambda>_.
     ebind (destructure dims ''width'') (\<lambda>w.
     ebind (destructure dims ''height'') (\<lambda>h.
     ebind (destructure maxDimensions ''maxWidth'') (\<lambda>maxWidth.
     ebind (destructure maxDimensions ''maxHeight'') (\<lambda>maxHeight.
     ebind (invalidType ''width'' ''number'' w) (\<lambda>_.
     ebind (invalidType ''height'' ''number'' h) (\<lambda>_.
     ebind (invalidType ''maxWidth'' ''number'' maxWidth) (\<lambda>_.
     ebind (invalidType ''maxHeight'' ''number'' maxHeight) (\<lambda>_.
       case (w, h, maxWidth, maxHeight) of
         (Num w, Num h, Num mw, Num mh) \<Rightarrow>
           let k = Math_min [Fin 1, jdiv mw w, jdiv mh h]
           in Inr \<lparr> width = Math_floor (jmul w k), height = Math_floor (jmul h k) \<rparr>
       | _ \<Rightarrow> Inl TypeError))))))))))"

text \<open>The object literal \<open>{ width, height }\<close> and its counterpart for the bounds.\<close>

definition dimsObj :: "jsval \<Rightarrow> jsval \<Rightarrow> jsval" where
  "dimsObj w h = Obj [(''width'', w), (''height'', h)]"

definition maxDimsObj :: "jsval \<Rightarrow> jsval \<Rightarrow> jsval" where
  "maxDimsObj mw mh = Obj [(''maxWidth'', mw), (''maxHeight'', mh)]"

section \<open>Files, the codec and effects\<close>

text \<open>
  A \<open>Buffer\<close> is a list of bytes. The file system is a map from paths to contents,
  together with the set of the directories that exist. A file can be written at a path
  when the directory part of the path, the text before its last \<open>/\<close>, is empty or
  names an existing directory; no operation of the program creates or removes a
  directory. Two different strings are two different paths: a path is not normalised,
  and there are no links. The world also keeps the calls made to the file system and to
  the codec, in the order they were made, so that what an operation did can be stated.
  A call is logged whether or not it succeeds.
\<close>

type_synonym bytes = "8 word list"

datatype event =
    ReadFile string
  | Stat string
  | Unlink string
  | Rename string string
  | Metadata bytes
  | JpegToFile bytes int string
  | ResizeToFile bytes jsnum jsnum string

record world =
  files :: "string \<rightharpoonup> bytes"
  dirs :: "string set"
  events :: "event list"

definition dirname :: "string \<Rightarrow> string" where
  "dirname p = rev (drop 1 (dropWhile (\<lambda>c. c \<noteq> CHR ''/'') (rev p)))"

definition can_write :: "world \<Rightarrow> string \<Rightarrow> bool" where
  "can_write w p = (dirname p = [] \<or> dirname p \<in> dirs w)"

text \<open>
  The image library \<open>sharp\<close> is a collaborator, a parameter of the model:
  \<open>accepts data\<close> says whether the constructor \<open>sharp(data)\<close> takes the buffer (it
  throws on an empty one, before anything is decoded); \<open>jpeg data q\<close> is the output of
  \<open>sharp(data).jpeg({ quality: q, chromaSubsampling: '4:4:4' })\<close>, \<open>resize data w h\<close>
  that of \<open>sharp(data).resize(w, h)\<close>, and \<open>metadata data\<close> the width and height
  \<open>sharp(data).metadata()\<close> reports, each \<open>None\<close> when the library rejects its input.
\<close>

record sharp =
  accepts :: "bytes \<Rightarrow> bool"
  jpeg :: "bytes \<Rightarrow> int \<Rightarrow> bytes option"
  resize :: "bytes \<Rightarrow> jsnum \<Rightarrow> jsnum \<Rightarrow> bytes option"
  metadata :: "bytes \<Rightarrow> (jsnum \<times> jsnum) option"

type_synonym 'a io = "world \<Rightarrow> (error + 'a) \<times> world"

definition return_io :: "'a \<Rightarrow> 'a io" where
  "return_io a w = (Inr a, w)"

definition throw_io :: "error \<Rightarrow> 'a io" where
  "throw_io e w = (Inl e, w)"

definition bind_io :: "'a io \<Rightarrow> ('a \<Rightarrow> 'b io) \<Rightarrow> 'b io" where
  "bind_io m f w = (case m w of (Inl e, w') \<Rightarrow> (Inl e, w') | (Inr a, w') \<Rightarrow> f a w')"

definition liftE :: "error + 'a \<Rightarrow> 'a io" where
  "liftE r w = (r, w)"

definition record_event :: "event \<Rightarrow> world \<Rightarrow> world" where
  "record_event e w = w\<lparr>events := events w @ [e]\<rparr>"

definition fs_readFile :: "string \<Rightarrow> bytes io" where
  "fs_readFile p w =
     (case files w p of
        None \<Rightarrow> (Inl IOFailure, record_event (ReadFile p) w)
      | Some d \<Rightarrow> (Inr d, record_event (ReadFile p) w))"

definition fs_stat :: "string \<Rightarrow> nat io" where
  "fs_stat p w =
     (case files w p of
        None \<Rightarrow> (Inl IOFailure, record_event (Stat p) w)
      | Some d \<Rightarrow> (Inr (length d), record_event (Stat p) w))"

definition fs_unlink :: "string \<Rightarrow> unit io" where
  "fs_unlink p w =
     (case files w p of
        None \<Rightarrow> (Inl IOFailure, record_event (Unlink p) w)
      | Some d \<Rightarrow> (Inr (), record_event (Unlink p) (w\<lparr>files := (files w)(p := None)\<rparr>)))"

definition fs_rename :: "string \<Rightarrow> string \<Rightarrow> unit io" where
  "fs_rename old new w =
     (case files w old of
        None \<Rightarrow> (Inl IOFailure, record_event (Rename old new) w)
      | Some d \<Rightarrow>
          if can_write w new
          then (Inr (), record_event (Rename old new)
                  (w\<lparr>files := ((files w)(old := None))(new \<mapsto> d)\<rparr>))
          else (Inl IOFailure, record_event (Rename old new) w))"

text \<open>\<open>sharp(data)\<close>: the instance keeps the buffer it was given.\<close>

definition sharp_new :: "sharp \<Rightarrow> bytes \<Rightarrow> bytes io" where
  "sharp_new sh d w = (if accepts sh d then (Inr d, w) else (Inl IOFailure, w))"

text \<open>
  \<open>sharp(data).jpeg(...).toFile(path)\<close> and \<open>sharp(data).resize(w, h).toFile(path)\<close>:
  the call fails when the codec rejects its input and when the file cannot be written.
\<close>

definition jpeg_toFile :: "sharp \<Rightarrow> bytes \<Rightarrow> int \<Rightarrow> string \<Rightarrow> unit io" where
  "jpeg_toFile sh d q p w =
     (case jpeg sh d q of
        None \<Rightarrow> (Inl IOFailure, record_event (JpegToFile d q p) w)
      | Some out \<Rightarrow>
          if can_write w p
          then (Inr (), record_event (JpegToFile d q p) (w\<lparr>files := (files w)(p \<mapsto> out)\<rparr>))
          else (Inl IOFailure, record_event (JpegToFile d q p) w))"

definition resize_toFile :: "sharp \<Rightarrow> bytes \<Rightarrow> jsnum \<Rightarrow> jsnum \<Rightarrow> string \<Rightarrow> unit io" where
  "resize_toFile sh d wd ht p w =
     (case resize sh d wd ht of
        None \<Rightarrow> (Inl IOFailure, record_event (ResizeToFile d wd ht p) w)
      | Some out \<Rightarrow>
          if can_write w p
          then (Inr (), record_event (ResizeToFile d wd ht p) (w\<lparr>files := (files w)(p \<mapsto> out)\<rparr>))
          else (Inl IOFailure, record_event (ResizeToFile d wd ht p) w))"

definition sharp_metadata :: "sharp \<Rightarrow> bytes \<Rightarrow> (jsnum \<times> jsnum) io" where
  "sharp_metadata sh d w =
     (case metadata sh d of
        None \<Rightarrow> (Inl IOFailure, record_event (Metadata d) w)
      | Some wh \<Rightarrow> (Inr wh, record_event (Metadata d) w))"

text \<open>
  A value that passed its validation is used at its type. The second case of each
  of these projections stands for the use of any other value; the validation that
  precedes every use makes it dead.
\<close>

fun asString :: "jsval \<Rightarrow> error + string" where
  "asString (Str s) = Inr s"
| "asString _ = Inl TypeError"

fun asNumber :: "jsval \<Rightarrow> error + jsnum" where
  "asNumber (Num n) = Inr n"
| "asNumber _ = Inl TypeError"

section \<open>Strings\<close>

text \<open>
  \<open>s.replace(pat, rep)\<close> with a string pattern replaces the first occurrence of
  \<open>pat\<close> only, and leaves \<open>s\<close> as it is when there is none. (None of the replacement
  strings of the program contains a \<open>$\<close>.)
\<close>

fun String_replace :: "string \<Rightarrow> string \<Rightarrow> string \<Rightarrow> string" where
  "String_replace pat rep [] = (if pat = [] then rep else [])"
| "String_replace pat rep (c # cs) =
     (if prefix pat (c # cs) then rep @ drop (length pat) (c # cs)
      else c # String_replace pat rep cs)"

text \<open>
  The regular expression \<open>/\.(png|svg|jpg|jpeg|gif)/\<close>: the leftmost position where
  one of the alternatives matches, and there the first alternative that does.
\<close>

definition formats :: "string list" where
  "formats = [''.png'', ''.svg'', ''.jpg'', ''.jpeg'', ''.gif'']"

fun regex_match :: "string \<Rightarrow> string option" where
  "regex_match [] = None"
| "regex_match (c # cs) =
     (case find (\<lambda>e. prefix e (c # cs)) formats of
        Some e \<Rightarrow> Some e
      | None \<Rightarrow> regex_match cs)"

section \<open>basics.js\<close>

definition getFormat :: "jsval \<Rightarrow> error + string" where
  "getFormat path =
     ebind (invalidType ''path'' ''string'' path) (\<lambda>_.
     ebind (asString path) (\<lambda>p.
       case regex_match p of
         None \<Rightarrow> Inl NotAnImage
       | Some format \<Rightarrow> Inr format))"

definition getImageSize :: "jsval \<Rightarrow> nat io" where
  "getImageSize path =
     bind_io (liftE (invalidType ''path'' ''string'' path)) (\<lambda>_.
     bind_io (liftE (asString path)) (\<lambda>p.
     fs_stat p))"

definition getImageDimensions :: "sharp \<Rightarrow> jsval \<Rightarrow> (jsnum \<times> jsnum) io" where
  "getImageDimensions sh path =
     bind_io (liftE (invalidType ''path'' ''string'' path)) (\<lambda>_.
     bind_io (liftE (asString path)) (\<lambda>p.
     bind_io (fs_readFile p) (\<lambda>d.
     bind_io (sharp_new sh d) (\<lambda>inst.
     sharp_metadata sh inst))))"

section \<open>optimize.js\<close>

definition convertToJpeg :: "sharp \<Rightarrow> jsval \<Rightarrow> jsval \<Rightarrow> string io" where
  "convertToJpeg sh path autoDelete =
     bind_io (liftE (invalidType ''path'' ''string'' path)) (\<lambda>_.
     bind_io (liftE (getFormat path)) (\<lambda>format.
     bind_io (liftE (asString path)) (\<lambda>p.
       if format \<in> set [''.jpeg'', ''.jpg''] then return_io p
       else
         let newPath = String_replace format ''.jpeg'' p in
         bind_io (fs_readFile p) (\<lambda>d.
         bind_io (sharp_new sh d) (\<lambda>inst.
         bind_io (jpeg_toFile sh inst 100 newPath) (\<lambda>_.
         bind_io (if truthy autoDelete then fs_unlink p else return_io ()) (\<lambda>_.
         return_io newPath)))))))"

definition resizePreservingAspectRatio :: "sharp \<Rightarrow> jsval \<Rightarrow> jsval \<Rightarrow> jsval \<Rightarrow> string io" where
  "resizePreservingAspectRatio sh path maxDimensions autoDelete =
     bind_io (liftE (invalidType ''path'' ''string'' path)) (\<lambda>_.
     bind_io (liftE (invalidType ''maxDimensions'' ''object'' maxDimensions)) (\<lambda>_.
     bind_io (liftE (destructure maxDimensions ''maxWidth'')) (\<lambda>maxWidth.
     bind_io (liftE (destructure maxDimensions ''maxHeight'')) (\<lambda>maxHeight.
     bind_io (liftE (invalidType ''maxWidth'' ''number'' maxWidth)) (\<lambda>_.
     bind_io (liftE (invalidType ''maxHeight'' ''number'' maxHeight)) (\<lambda>_.
     bind_io (liftE (asString path)) (\<lambda>p.
     bind_io (liftE (asNumber maxWidth)) (\<lambda>mw.
     bind_io (liftE (asNumber maxHeight)) (\<lambda>mh.
     bind_io (getImageDimensions sh path) (\<lambda>(wd, ht).
       if jle wd mw \<and> jle ht mh then return_io p
       else
         bind_io (liftE (calculateOptimalDimensions (dimsObj (Num wd) (Num ht)) maxDimensions))
           (\<lambda>newDimensions.
         let newPath = String_replace ''.'' ''-resized.'' p in
         bind_io (fs_readFile p) (\<lambda>d.
         bind_io (sharp_new sh d) (\<lambda>inst.
         bind_io (resize_toFile sh inst (width newDimensions) (height newDimensions) newPath)
           (\<lambda>_.
         bind_io (if truthy autoDelete then fs_unlink p else return_io ()) (\<lambda>_.
         return_io newPath)))))))))))))))"

text \<open>
  One pass through the body of the \<open>while\<close> loop of \<open>compressJpeg\<close>: encode the buffer
  of \<open>sharpInstance\<close> at \<open>quality = Math.floor((left + right) / 2)\<close> into \<open>newPath\<close>,
  then move \<open>left\<close> or \<open>right\<close> by the size of the file written.
\<close>

definition compress_step ::
  "sharp \<Rightarrow> bytes \<Rightarrow> string \<Rightarrow> jsnum \<Rightarrow> int \<Rightarrow> int \<Rightarrow> (int \<times> int) io" where
  "compress_step sh d newPath maxSize left right =
     (let quality = (left + right) div 2 in
      bind_io (jpeg_toFile sh d quality newPath) (\<lambda>_.
      bind_io (getImageSize (Str newPath)) (\<lambda>size.
        if jlt (Fin (real size)) maxSize then return_io (quality, right)
        else return_io (left, quality))))"

function compress_loop ::
  "sharp \<Rightarrow> bytes \<Rightarrow> string \<Rightarrow> jsnum \<Rightarrow> int \<Rightarrow> int \<Rightarrow> (int \<times> int) io" where
  "compress_loop sh d newPath maxSize left right w =
     (if right - left > 1 then
        (case compress_step sh d newPath maxSize left right w of
           (Inl e, w') \<Rightarrow> (Inl e, w')
         | (Inr (left', right'), w') \<Rightarrow> compress_loop sh d newPath maxSize left' right' w')
      else (Inr (left, right), w))"
  by pat_completeness auto
termination
  by (relation "measure (\<lambda>(sh, d, newPath, maxSize, left, right, w). nat (right - left))")
     (auto simp: compress_step_def bind_io_def return_io_def Let_def
           split: prod.splits sum.splits if_splits)

declare compress_loop.simps [simp del]

definition compressJpeg :: "sharp \<Rightarrow> jsval \<Rightarrow> jsval \<Rightarrow> jsval \<Rightarrow> string io" where
  "compressJpeg sh path maxSize autoDelete =
     bind_io (liftE (invalidType ''path'' ''string'' path)) (\<lambda>_.
     bind_io (liftE (invalidType ''maxSize'' ''number'' maxSize)) (\<lambda>_.
     bind_io (liftE (asString path)) (\<lambda>p.
     bind_io (liftE (asNumber maxSize)) (\<lambda>ms.
     bind_io (fs_readFile p) (\<lambda>d.
     bind_io (sharp_new sh d) (\<lambda>sharpInstance.
     bind_io (getImageSize path) (\<lambda>size.
       if jle (Fin (real size)) ms then return_io p
       else
         let newPath = String_replace ''.'' ''-compressed.'' p in
         bind_io (compress_loop sh sharpInstance newPath ms 1 100) (\<lambda>(left, right).
         bind_io (jpeg_toFile sh sharpInstance left newPath) (\<lambda>_.
         bind_io (if truthy autoDelete then fs_unlink p else return_io ()) (\<lambda>_.
         return_io newPath))))))))))"

text \<open>The body of the \<open>try\<close> block of \<open>optimizeImages\<close>, for one path.\<close>

definition optimizeItem :: "sharp \<Rightarrow> jsval \<Rightarrow> jsval \<Rightarrow> jsval \<Rightarrow> jsval \<Rightarrow> string io" where
  "optimizeItem sh maxWidth maxHeight maxSize path =
     bind_io (convertToJpeg sh path (Bool True)) (\<lambda>jpegPath.
     bind_io (resizePreservingAspectRatio sh (Str jpegPath) (maxDimsObj maxWidth maxHeight)
                (Bool True)) (\<lambda>resizedPath.
     bind_io (compressJpeg sh (Str resizedPath) maxSize (Bool True)) (\<lambda>compressedPath.
     bind_io (fs_rename compressedPath jpegPath) (\<lambda>_.
     return_io jpegPath))))"

text \<open>The \<open>for\<close> loop: a path whose processing throws is skipped (\<open>catch\<close>, \<open>continue\<close>).\<close>

fun optimizeLoop ::
  "sharp \<Rightarrow> jsval \<Rightarrow> jsval \<Rightarrow> jsval \<Rightarrow> jsval list \<Rightarrow> string list \<Rightarrow> string list io" where
  "optimizeLoop sh maxWidth maxHeight maxSize [] newPaths w = (Inr newPaths, w)"
| "optimizeLoop sh maxWidth maxHeight maxSize (path # paths) newPaths w =
     (case optimizeItem sh maxWidth maxHeight maxSize path w of
        (Inl e, w') \<Rightarrow> optimizeLoop sh maxWidth maxHeight maxSize paths newPaths w'
      | (Inr jpegPath, w') \<Rightarrow>
          optimizeLoop sh maxWidth maxHeight maxSize paths (newPaths @ [jpegPath]) w')"

fun asArray :: "jsval \<Rightarrow> error + jsval list" where
  "asArray (Arr xs) = Inr xs"
| "asArray _ = Inl TypeError"

definition optimizeImages :: "sharp \<Rightarrow> jsval \<Rightarrow> jsval \<Rightarrow> string list io" where
  "optimizeImages sh paths maxMetadata =
     bind_io (liftE (invalidType ''paths'' ''array'' paths)) (\<lambda>_.
     bind_io (liftE (invalidType ''maxMetadata'' ''object'' maxMetadata)) (\<lambda>_.
     bind_io (liftE (destructure maxMetadata ''maxWidth'')) (\<lambda>maxWidth.
     bind_io (liftE (destructure maxMetadata ''maxHeight'')) (\<lambda>maxHeight.
     bind_io (liftE (destructure maxMetadata ''maxSize'')) (\<lambda>maxSize.
     bind_io (liftE (asArray paths)) (\<lambda>ps.
     optimizeLoop sh maxWidth maxHeight maxSize ps []))))))"

section \<open>The operations, with the validation helper as a parameter\<close>

text \<open>
  Modelled from the spec: the check \<open>is.invalidType(name, 'number', value)\<close> as the spec
  words it for the dimension calculator, which "fails with InvalidArgument if any input
  is not a positive-constrainted numeric value (non-object, missing numeric field)".
  Under \<open>invalidPositive\<close> a \<open>'number'\<close> has to be a number greater than zero. It
  differs from \<open>invalidType\<close> on the numbers that are not greater than zero, and on
  nothing else.

  \<open>lib/is.js\<close> is not among the sources, so what the operations validate is stated with
  the helper as a parameter: the definitions that follow are those of the sections
  above, line for line, with a first argument \<open>chk\<close> in the place of \<open>invalidType\<close>.
\<close>

type_synonym validator = "string \<Rightarrow> string \<Rightarrow> jsval \<Rightarrow> error + unit"

definition invalidPositive :: validator where
  "invalidPositive name type v =
     (if typeName v \<noteq> type then Inl InvalidArgument
      else case v of
             Num n \<Rightarrow> if jlt (Fin 0) n then Inr () else Inl InvalidArgument
           | _ \<Rightarrow> Inr ())"














section \<open>The binary search, stated\<close>

text \<open>
  What the search of \<open>compressJpeg\<close> knows about a quality: \<open>below\<close> when the
  encoding of the buffer at that quality is strictly smaller than the budget, \<open>not_below\<close>
  when it is not, and \<open>tried\<close> when that encoding was written to \<open>newPath\<close>.
  \<open>search_inv\<close> is the invariant of the loop, and \<open>loop_head\<close> holds of the values of
  \<open>left\<close> and \<open>right\<close> and of the world each time the condition of the \<open>while\<close> is
  evaluated, starting from \<open>left = 1\<close>, \<open>right = 100\<close>. \<open>search_events\<close> describes
  the calls one run of the loop may make.
\<close>

definition below :: "sharp \<Rightarrow> bytes \<Rightarrow> jsnum \<Rightarrow> int \<Rightarrow> bool" where
  "below sh d maxSize q =
     (case jpeg sh d q of None \<Rightarrow> False | Some out \<Rightarrow> jlt (Fin (real (length out))) maxSize)"

definition not_below :: "sharp \<Rightarrow> bytes \<Rightarrow> jsnum \<Rightarrow> int \<Rightarrow> bool" where
  "not_below sh d maxSize q =
     (case jpeg sh d q of None \<Rightarrow> False | Some out \<Rightarrow> \<not> jlt (Fin (real (length out))) maxSize)"

definition tried :: "bytes \<Rightarrow> string \<Rightarrow> world \<Rightarrow> int \<Rightarrow> bool" where
  "tried d newPath w q = (JpegToFile d q newPath \<in> set (events w))"

definition search_inv :: "sharp \<Rightarrow> bytes \<Rightarrow> string \<Rightarrow> jsnum \<Rightarrow> world \<Rightarrow> int \<Rightarrow> int \<Rightarrow> bool" where
  "search_inv sh d newPath maxSize w left right =
     (1 \<le> left \<and> left < right \<and> right \<le> 100
      \<and> (left = 1 \<or> (tried d newPath w left \<and> below sh d maxSize left))
      \<and> (right = 100 \<or> (tried d newPath w right \<and> not_below sh d maxSize right)))"

inductive loop_head ::
  "sharp \<Rightarrow> bytes \<Rightarrow> string \<Rightarrow> jsnum \<Rightarrow> world \<Rightarrow> int \<Rightarrow> int \<Rightarrow> world \<Rightarrow> bool"
  for sh d newPath maxSize w0 where
  enter: "loop_head sh d newPath maxSize w0 1 100 w0"
| again: "loop_head sh d newPath maxSize w0 left right w \<Longrightarrow> right - left > 1 \<Longrightarrow>
          compress_step sh d newPath maxSize left right w = (Inr (left', right'), w') \<Longrightarrow>
          loop_head sh d newPath maxSize w0 left' right' w'"

definition search_events :: "bytes \<Rightarrow> string \<Rightarrow> int \<Rightarrow> int \<Rightarrow> event list \<Rightarrow> bool" where
  "search_events d newPath left right evs =
     (\<forall>e\<in>set evs. e = Stat newPath \<or> (\<exists>q. e = JpegToFile d q newPath \<and> left < q \<and> q < right))"

section \<open>The batch and the validations, stated\<close>

text \<open>
  \<open>item_outcomes\<close> lists, for each path of a batch in order, what the \<open>try\<close> block did
  with it in the world the paths before it left: its result and the world after it.
  \<open>successes\<close> keeps the paths of the results that are not errors. \<open>positiveNumber v\<close>
  holds when \<open>v\<close> is a number greater than zero, and \<open>positiveField v k\<close> when \<open>v\<close> is
  an object whose property \<open>k\<close> is such a number.
\<close>

fun item_outcomes ::
  "sharp \<Rightarrow> jsval \<Rightarrow> jsval \<Rightarrow> jsval \<Rightarrow> jsval list \<Rightarrow> world \<Rightarrow> ((error + string) \<times> world) list" where
  "item_outcomes sh maxWidth maxHeight maxSize [] w = []"
| "item_outcomes sh maxWidth maxHeight maxSize (path # paths) w =
     optimizeItem sh maxWidth maxHeight maxSize path w
       # item_outcomes sh maxWidth maxHeight maxSize paths
           (snd (optimizeItem sh maxWidth maxHeight maxSize path w))"

fun successes :: "(error + string) list \<Rightarrow> string list" where
  "successes [] = []"
| "successes (Inl e # rs) = successes rs"
| "successes (Inr jpegPath # rs) = jpegPath # successes rs"

fun positiveNumber :: "jsval \<Rightarrow> bool" where
  "positiveNumber (Num n) = jlt (Fin 0) n"
| "positiveNumber _ = False"


section \<open>A small codec and file system for examples\<close>

text \<open>
  A codec whose JPEG output at quality \<open>q\<close> is \<open>q\<close> bytes long, so that the size grows
  with the quality, and a world with one file of \<open>n\<close> bytes, in a directory that exists.
\<close>

definition demo_sharp :: sharp where
  "demo_sharp = \<lparr> accepts = (\<lambda>d. d \<noteq> []), jpeg = (\<lambda>d q. Some (replicate (nat q) 0)),
     resize = (\<lambda>d w h. Some (take 10 d)), metadata = (\<lambda>d. Some (Fin 4000, Fin 3000)) \<rparr>"

definition demo_world :: "string \<Rightarrow> nat \<Rightarrow> world" where
  "demo_world p n = \<lparr> files = [p \<mapsto> replicate n 1], dirs = {dirname p}, events = [] \<rparr>"

text \<open>A batch of two files, and bounds for it.\<close>

definition demo_batch :: world where
  "demo_batch = \<lparr> files = [''a.png'' \<mapsto> replicate 2000 1, ''c.jpg'' \<mapsto> replicate 30 1],
     dirs = {}, events = [] \<rparr>"

definition demo_bounds :: "(string \<times> jsval) list" where
  "demo_bounds = [(''maxWidth'', Num (Fin 1024)), (''maxHeight'', Num (Fin 1024)),
                  (''maxSize'', Num (Fin 5))]"

section \<open>Properties\<close>

subsection \<open>Evaluation rules\<close>

lemma bind_io_simps [simp]:
  "bind_io (liftE (Inr a)) f w = f a w"
  "bind_io (liftE (Inl e)) f w = (Inl e, w)"
  "bind_io (return_io a) f w = f a w"
  "bind_io (throw_io e) f w = (Inl e, w)"
  by (simp_all add: bind_io_def liftE_def return_io_def throw_io_def)

lemma invalidType_simps [simp]:
  "invalidType n ''string'' (Str s) = Inr ()"
  "invalidType n ''number'' (Num x) = Inr ()"
  "invalidType n ''object'' (Obj kvs) = Inr ()"
  "invalidType n ''array'' (Arr xs) = Inr ()"
  by (simp_all add: invalidType_def)

lemma can_write_simps [simp]:
  "can_write (w\<lparr>files := f\<rparr>) p = can_write w p"
  "can_write (w\<lparr>events := evs\<rparr>) p = can_write w p"
  "can_write (record_event ev w) p = can_write w p"
  by (simp_all add: can_write_def record_event_def)

lemma can_write_dirs: "dirs w' = dirs w \<Longrightarrow> can_write w' p = can_write w p"
  by (simp add: can_write_def)

lemma getImageSize_Str:
  "getImageSize (Str p) w =
     (case files w p of None \<Rightarrow> Inl IOFailure | Some d \<Rightarrow> Inr (length d), record_event (Stat p) w)"
  by (simp add: getImageSize_def fs_stat_def split: option.splits)

lemma compress_step_Some:
  assumes "jpeg sh d ((left + right) div 2) = Some out" "can_write w newPath"
  shows "compress_step sh d newPath maxSize left right w =
     (Inr (if jlt (Fin (real (length out))) maxSize then ((left + right) div 2, right)
           else (left, (left + right) div 2)),
      w\<lparr>files := (files w)(newPath \<mapsto> out),
        events := events w @ [JpegToFile d ((left + right) div 2) newPath, Stat newPath]\<rparr>)"
  using assms
  by (simp add: compress_step_def Let_def bind_io_def jpeg_toFile_def getImageSize_Str
      record_event_def return_io_def)

lemma compress_step_fail:
  assumes "jpeg sh d ((left + right) div 2) = None \<or> \<not> can_write w newPath"
  shows "compress_step sh d newPath maxSize left right w =
     (Inl IOFailure, w\<lparr>events := events w @ [JpegToFile d ((left + right) div 2) newPath]\<rparr>)"
  using assms
  by (auto simp: compress_step_def Let_def bind_io_def jpeg_toFile_def record_event_def
      split: option.splits)

lemma compress_step_cases:
  obtains (fail) "compress_step sh d newPath maxSize left right w =
       (Inl IOFailure, w\<lparr>events := events w @ [JpegToFile d ((left + right) div 2) newPath]\<rparr>)"
  | (ok) out where "jpeg sh d ((left + right) div 2) = Some out" "can_write w newPath"
proof (cases "jpeg sh d ((left + right) div 2) = None \<or> \<not> can_write w newPath")
  case True
  show ?thesis by (rule fail [OF compress_step_fail [OF True]])
next
  case False
  then show ?thesis using ok by auto
qed

lemma compress_step_inv:
  assumes inv: "search_inv sh d newPath maxSize w left right"
    and guard: "right - left > 1"
    and step: "compress_step sh d newPath maxSize left right w = (Inr (left', right'), w')"
  shows "search_inv sh d newPath maxSize w' left' right'"
proof (cases rule: compress_step_cases [of sh d newPath maxSize left right w])
  case fail
  with step show ?thesis by simp
next
  case (ok out)
  let ?q = "(left + right) div 2"
  have q: "left < ?q" "?q < right" using guard by linarith+
  have w': "w' = w\<lparr>files := (files w)(newPath \<mapsto> out),
        events := events w @ [JpegToFile d ?q newPath, Stat newPath]\<rparr>"
    using step by (simp add: compress_step_Some [OF ok])
  have keep: "tried d newPath w x \<Longrightarrow> tried d newPath w' x" for x
    by (simp add: tried_def w')
  have new: "tried d newPath w' ?q" by (simp add: tried_def w')
  show ?thesis
  proof (cases "jlt (Fin (real (length out))) maxSize")
    case True
    then have "left' = ?q" "right' = right" using step by (auto simp: compress_step_Some [OF ok])
    moreover have "below sh d maxSize ?q" using True ok by (simp add: below_def)
    ultimately show ?thesis using inv q new keep by (auto simp: search_inv_def)
  next
    case False
    then have "left' = left" "right' = ?q" using step by (auto simp: compress_step_Some [OF ok])
    moreover have "not_below sh d maxSize ?q" using False ok by (simp add: not_below_def)
    ultimately show ?thesis using inv q new keep by (auto simp: search_inv_def)
  qed
qed

lemma loop_head_inv:
  "loop_head sh d newPath maxSize w0 left right w \<Longrightarrow> search_inv sh d newPath maxSize w left right"
proof (induction rule: loop_head.induct)
  case enter
  show ?case by (simp add: search_inv_def)
next
  case (again left right w left' right' w')
  then show ?case using compress_step_inv by blast
qed

lemma compress_loop_head:
  assumes "compress_loop sh d newPath maxSize left right w = (Inr (l, r), w')"
    and "loop_head sh d newPath maxSize w0 left right w"
  shows "loop_head sh d newPath maxSize w0 l r w' \<and> r - l \<le> 1"
  using assms
proof (induction sh d newPath maxSize left right w rule: compress_loop.induct)
  case (1 sh d newPath maxSize left right w)
  show ?case
  proof (cases "right - left > 1")
    case False
    with "1.prems" show ?thesis by (simp add: compress_loop.simps)
  next
    case True
    obtain res w1 where st: "compress_step sh d newPath maxSize left right w = (res, w1)"
      by (cases "compress_step sh d newPath maxSize left right w")
    show ?thesis
    proof (cases res)
      case (Inl e)
      with True st "1.prems" show ?thesis by (simp add: compress_loop.simps)
    next
      case (Inr lr)
      obtain l1 r1 where lr: "lr = (l1, r1)" by (cases lr)
      have run: "compress_loop sh d newPath maxSize l1 r1 w1 = (Inr (l, r), w')"
        using True st Inr lr "1.prems"(1) by (simp add: compress_loop.simps)
      have head: "loop_head sh d newPath maxSize w0 l1 r1 w1"
        using loop_head.again [OF "1.prems"(2) True] st Inr lr by simp
      show ?thesis
        using "1.IH" [OF True st [symmetric, unfolded Inr lr] refl refl run head] .
    qed
  qed
qed

lemma search_events_append:
  "search_events d np l r (xs @ ys) = (search_events d np l r xs \<and> search_events d np l r ys)"
  by (auto simp: search_events_def)

lemma search_events_widen:
  "search_events d np l r evs \<Longrightarrow> l' \<le> l \<Longrightarrow> r \<le> r' \<Longrightarrow> search_events d np l' r' evs"
  unfolding search_events_def by fastforce

lemma mid_between: "right - left > 1 \<Longrightarrow> left < (left + right) div 2 \<and> (left + right) div 2 < (right::int)"
  by linarith

lemma compress_step_events:
  assumes "compress_step sh d newPath maxSize left right w = (res, w')" "right - left > 1"
  shows "\<exists>evs. events w' = events w @ evs \<and> search_events d newPath left right evs"
proof (cases rule: compress_step_cases [of sh d newPath maxSize left right w])
  case fail
  then have "events w' = events w @ [JpegToFile d ((left + right) div 2) newPath]"
    using assms(1) by auto
  moreover have "search_events d newPath left right [JpegToFile d ((left + right) div 2) newPath]"
    using mid_between [OF assms(2)] by (simp add: search_events_def)
  ultimately show ?thesis by blast
next
  case (ok out)
  then have "events w' = events w @ [JpegToFile d ((left + right) div 2) newPath, Stat newPath]"
    using assms(1) by (auto simp: compress_step_Some)
  moreover have "search_events d newPath left right
      [JpegToFile d ((left + right) div 2) newPath, Stat newPath]"
    using mid_between [OF assms(2)] by (simp add: search_events_def)
  ultimately show ?thesis by blast
qed

lemma compress_step_files:
  assumes "compress_step sh d newPath maxSize left right w = (res, w')"
  shows "dirs w' = dirs w \<and> (\<forall>x. x \<noteq> newPath \<longrightarrow> files w' x = files w x)"
proof (cases rule: compress_step_cases [of sh d newPath maxSize left right w])
  case fail
  then show ?thesis using assms by auto
next
  case (ok out)
  then show ?thesis using assms by (auto simp: compress_step_Some)
qed

lemma compress_step_bounds:
  assumes "compress_step sh d newPath maxSize left right w = (Inr (l, r), w')" "right - left > 1"
  shows "left \<le> l \<and> l < r \<and> r \<le> right"
proof (cases rule: compress_step_cases [of sh d newPath maxSize left right w])
  case fail
  then show ?thesis using assms by simp
next
  case (ok out)
  then show ?thesis using assms mid_between [OF assms(2)]
    by (auto simp: compress_step_Some split: if_splits)
qed

lemma loop_head_dirs:
  "loop_head sh d newPath maxSize w0 left right w \<Longrightarrow> dirs w = dirs w0"
proof (induction rule: loop_head.induct)
  case enter
  show ?case by simp
next
  case (again left right w left' right' w')
  then show ?case using compress_step_files by fastforce
qed

lemma compress_loop_effects:
  assumes "compress_loop sh d newPath maxSize left right w = (res, w')"
  shows "(\<exists>evs. events w' = events w @ evs \<and> search_events d newPath left right evs)
         \<and> dirs w' = dirs w \<and> (\<forall>x. x \<noteq> newPath \<longrightarrow> files w' x = files w x)"
  using assms
proof (induction sh d newPath maxSize left right w rule: compress_loop.induct)
  case (1 sh d newPath maxSize left right w)
  show ?case
  proof (cases "right - left > 1")
    case False
    with "1.prems" have "w' = w" by (simp add: compress_loop.simps)
    then show ?thesis by (simp add: search_events_def)
  next
    case True
    obtain r1 w1 where st: "compress_step sh d newPath maxSize left right w = (r1, w1)"
      by (cases "compress_step sh d newPath maxSize left right w")
    from compress_step_events [OF st True] obtain evs1
      where e1: "events w1 = events w @ evs1" "search_events d newPath left right evs1"
      by blast
    have f1: "dirs w1 = dirs w" "\<forall>x. x \<noteq> newPath \<longrightarrow> files w1 x = files w x"
      using compress_step_files [OF st] by simp_all
    show ?thesis
    proof (cases r1)
      case (Inl e)
      with True st "1.prems" have "w' = w1" by (simp add: compress_loop.simps)
      with e1 f1 show ?thesis by blast
    next
      case (Inr lr)
      obtain l1 r1' where lr: "lr = (l1, r1')" by (cases lr)
      have st': "compress_step sh d newPath maxSize left right w = (Inr (l1, r1'), w1)"
        using st Inr lr by simp
      have run: "compress_loop sh d newPath maxSize l1 r1' w1 = (res, w')"
        using True st' "1.prems"(1) by (simp add: compress_loop.simps)
      note ih = "1.IH" [OF True st' [symmetric] refl refl run]
      have b: "left \<le> l1" "r1' \<le> right" using compress_step_bounds [OF st' True] by simp_all
      from ih obtain evs2 where e2: "events w' = events w1 @ evs2"
        "search_events d newPath l1 r1' evs2"
        by blast
      have "search_events d newPath left right (evs1 @ evs2)"
        using e1(2) search_events_widen [OF e2(2) b] by (simp add: search_events_append)
      moreover have "events w' = events w @ (evs1 @ evs2)" using e1(1) e2(1) by simp
      moreover have "\<forall>x. x \<noteq> newPath \<longrightarrow> files w' x = files w x" using f1 ih by simp
      moreover have "dirs w' = dirs w" using f1 ih by simp
      ultimately show ?thesis by blast
    qed
  qed
qed

lemma compress_loop_total:
  assumes "\<And>q. left < q \<Longrightarrow> q < right \<Longrightarrow> jpeg sh d q \<noteq> None" and "can_write w newPath"
  shows "\<exists>l r w'. compress_loop sh d newPath maxSize left right w = (Inr (l, r), w')"
  using assms
proof (induction sh d newPath maxSize left right w rule: compress_loop.induct)
  case (1 sh d newPath maxSize left right w)
  show ?case
  proof (cases "right - left > 1")
    case False
    then show ?thesis by (simp add: compress_loop.simps)
  next
    case True
    let ?q = "(left + right) div 2"
    have q: "left < ?q" "?q < right" using True by linarith+
    then obtain out where out: "jpeg sh d ?q = Some out" using "1.prems"(1) by fastforce
    let ?w1 = "w\<lparr>files := (files w)(newPath \<mapsto> out),
        events := events w @ [JpegToFile d ?q newPath, Stat newPath]\<rparr>"
    have cw: "can_write ?w1 newPath" using "1.prems"(2) by simp
    show ?thesis
    proof (cases "jlt (Fin (real (length out))) maxSize")
      case lt: True
      have st: "compress_step sh d newPath maxSize left right w = (Inr (?q, right), ?w1)"
        using lt by (simp add: compress_step_Some [OF out "1.prems"(2)])
      have "\<exists>l r w'. compress_loop sh d newPath maxSize ?q right ?w1 = (Inr (l, r), w')"
        using "1.IH" [OF True st [symmetric] refl refl _ cw] "1.prems"(1) q by simp
      then show ?thesis using True st by (simp add: compress_loop.simps [of _ _ _ _ left right])
    next
      case ge: False
      have st: "compress_step sh d newPath maxSize left right w = (Inr (left, ?q), ?w1)"
        using ge by (simp add: compress_step_Some [OF out "1.prems"(2)])
      have "\<exists>l r w'. compress_loop sh d newPath maxSize left ?q ?w1 = (Inr (l, r), w')"
        using "1.IH" [OF True st [symmetric] refl refl _ cw] "1.prems"(1) q by simp
      then show ?thesis using True st by (simp add: compress_loop.simps [of _ _ _ _ left right])
    qed
  qed
qed

lemma length_String_replace_dot:
  "CHR ''.'' \<in> set p \<Longrightarrow> length (String_replace ''.'' (m @ ''.'') p) = length p + length m"
  by (induction p) auto

lemma String_replace_dot_neq:
  assumes "CHR ''.'' \<in> set p" shows "String_replace ''.'' ''-compressed.'' p \<noteq> p"
proof
  assume "String_replace ''.'' ''-compressed.'' p = p"
  then have "length (String_replace ''.'' (''-compressed'' @ ''.'') p) = length p" by simp
  then show False using length_String_replace_dot [OF assms, of "''-compressed''"] by simp
qed

lemma compressJpeg_start:
  assumes "files w p = Some d" "accepts sh d"
  shows "compressJpeg sh (Str p) (Num maxSize) autoDelete w =
     (if jle (Fin (real (length d))) maxSize
      then (Inr p, w\<lparr>events := events w @ [ReadFile p, Stat p]\<rparr>)
      else bind_io (compress_loop sh d (String_replace ''.'' ''-compressed.'' p) maxSize 1 100)
             (\<lambda>(left, right).
               bind_io (jpeg_toFile sh d left (String_replace ''.'' ''-compressed.'' p)) (\<lambda>_.
               bind_io (if truthy autoDelete then fs_unlink p else return_io ()) (\<lambda>_.
               return_io (String_replace ''.'' ''-compressed.'' p))))
             (w\<lparr>events := events w @ [ReadFile p, Stat p]\<rparr>))"
  using assms
  by (simp add: compressJpeg_def bind_io_def [of "liftE _"] bind_io_def [of "fs_readFile _"]
      bind_io_def [of "sharp_new _ _"] bind_io_def [of "getImageSize _"]
      liftE_def fs_readFile_def sharp_new_def
      getImageSize_Str record_event_def return_io_def Let_def)

lemma compressJpeg_small_eq:
  assumes "files w p = Some d" "accepts sh d" "jle (Fin (real (length d))) maxSize"
  shows "compressJpeg sh (Str p) (Num maxSize) autoDelete w =
           (Inr p, w\<lparr>events := events w @ [ReadFile p, Stat p]\<rparr>)"
  using assms by (simp add: compressJpeg_start)

lemma compressJpeg_search_eq:
  assumes fl: "files w p = Some d" and acc: "accepts sh d"
    and big: "\<not> jle (Fin (real (length d))) maxSize"
    and loop: "compress_loop sh d (String_replace ''.'' ''-compressed.'' p) maxSize 1 100
                 (w\<lparr>events := events w @ [ReadFile p, Stat p]\<rparr>) = (Inr (l, r), w2)"
    and out: "jpeg sh d l = Some out"
    and wr: "can_write w (String_replace ''.'' ''-compressed.'' p)"
  shows "compressJpeg sh (Str p) (Num maxSize) autoDelete w =
     (Inr (String_replace ''.'' ''-compressed.'' p),
      if truthy autoDelete
      then w2\<lparr>files := ((files w2)(String_replace ''.'' ''-compressed.'' p \<mapsto> out))(p := None),
              events := events w2 @ [JpegToFile d l (String_replace ''.'' ''-compressed.'' p), Unlink p]\<rparr>
      else w2\<lparr>files := (files w2)(String_replace ''.'' ''-compressed.'' p \<mapsto> out),
              events := events w2 @ [JpegToFile d l (String_replace ''.'' ''-compressed.'' p)]\<rparr>)"
proof -
  let ?np = "String_replace ''.'' ''-compressed.'' p"
  note eff = compress_loop_effects [OF loop]
  have "files w2 p = files (w\<lparr>events := events w @ [ReadFile p, Stat p]\<rparr>) p" if "p \<noteq> ?np"
    using eff that by blast
  then have keep: "p \<noteq> ?np \<Longrightarrow> files w2 p = Some d" using fl by simp
  have present: "((files w2)(?np \<mapsto> out)) p \<noteq> None"
    using keep by (cases "p = ?np") auto
  then obtain c where c: "((files w2)(?np \<mapsto> out)) p = Some c" by blast
  have "dirs w2 = dirs w" using eff by simp
  then have cw: "can_write w2 ?np" using wr by (simp add: can_write_def)
  show ?thesis
    unfolding compressJpeg_start [OF fl acc]
    using big loop out c cw
    by (simp add: bind_io_def return_io_def jpeg_toFile_def fs_unlink_def record_event_def)
qed

lemma compressJpeg_last_fails:
  assumes fl: "files w p = Some d" and acc: "accepts sh d"
    and big: "\<not> jle (Fin (real (length d))) maxSize"
    and loop: "compress_loop sh d (String_replace ''.'' ''-compressed.'' p) maxSize 1 100
                 (w\<lparr>events := events w @ [ReadFile p, Stat p]\<rparr>) = (Inr (l, r), w2)"
    and bad: "jpeg sh d l = None \<or> \<not> can_write w (String_replace ''.'' ''-compressed.'' p)"
  shows "compressJpeg sh (Str p) (Num maxSize) autoDelete w =
     (Inl IOFailure,
      w2\<lparr>events := events w2 @ [JpegToFile d l (String_replace ''.'' ''-compressed.'' p)]\<rparr>)"
proof -
  let ?np = "String_replace ''.'' ''-compressed.'' p"
  have "dirs w2 = dirs w" using compress_loop_effects [OF loop] by simp
  then have "can_write w2 ?np = can_write w ?np" by (simp add: can_write_def)
  then have "jpeg sh d l = None \<or> \<not> can_write w2 ?np" using bad by simp
  then show ?thesis
    unfolding compressJpeg_start [OF fl acc]
    using big loop
    by (auto simp: bind_io_def jpeg_toFile_def record_event_def split: option.splits)
qed

lemma jlt_mono: "a \<le> b \<Longrightarrow> jlt (Fin b) m \<Longrightarrow> jlt (Fin a) m"
  by (cases m) auto

lemmas double_defs = double_of_def ilog2.simps round_even_def

lemmas eval_defs = compressJpeg_def bind_io_def return_io_def throw_io_def liftE_def ebind_def
  invalidType_def record_event_def fs_readFile_def fs_stat_def fs_unlink_def fs_rename_def
  jpeg_toFile_def resize_toFile_def sharp_metadata_def sharp_new_def getImageSize_def
  compress_loop.simps compress_step_def Let_def demo_sharp_def demo_world_def
  can_write_def dirname_def

subsection \<open>Rounding\<close>

lemma ilog2_bounds:
  "0 < x \<Longrightarrow> 2 powi (ilog2 x) \<le> x \<and> x < 2 powi (ilog2 x + 1)"
proof (induction x rule: ilog2.induct)
  case (1 x)
  show ?case
  proof (cases "2 \<le> x")
    case True
    have e: "ilog2 x = ilog2 (x / 2) + 1" using True "1.prems" by (simp add: ilog2.simps [of x])
    from "1.IH"(1) [OF _ True] "1.prems"
    have "2 powi (ilog2 (x / 2)) \<le> x / 2 \<and> x / 2 < 2 powi (ilog2 (x / 2) + 1)" by simp
    then have ih: "2 powi (ilog2 (x / 2)) * 2 \<le> x" "x < 2 powi (ilog2 (x / 2) + 1) * 2" by simp_all
    have "(2::real) powi (ilog2 (x / 2) + 1 + 1) = 2 powi (ilog2 (x / 2) + 1) * 2"
      by (rule power_int_add_1) simp
    moreover have "(2::real) powi (ilog2 (x / 2) + 1) = 2 powi (ilog2 (x / 2)) * 2"
      by (rule power_int_add_1) simp
    ultimately show ?thesis unfolding e using ih by simp
  next
    case False
    show ?thesis
    proof (cases "x < 1")
      case True
      have e: "ilog2 x = ilog2 (2 * x) - 1" using True False "1.prems" by (simp add: ilog2.simps [of x])
      from "1.IH"(2) [OF _ False True] "1.prems"
      have ih: "2 powi (ilog2 (2 * x)) \<le> 2 * x \<and> 2 * x < 2 powi (ilog2 (2 * x) + 1)" by simp
      have "(2::real) powi (ilog2 (2 * x)) = 2 powi (ilog2 (2 * x) - 1 + 1)" by simp
      also have "\<dots> = 2 powi (ilog2 (2 * x) - 1) * 2" by (subst power_int_add_1) simp_all
      finally have p: "(2::real) powi (ilog2 (2 * x)) = 2 powi (ilog2 (2 * x) - 1) * 2" .
      show ?thesis unfolding e using ih by (simp add: p power_int_add_1)
    next
      case ge: False
      then have "ilog2 x = 0" using False "1.prems" by (simp add: ilog2.simps [of x])
      then show ?thesis using False ge by simp
    qed
  qed
qed

lemma round_even_ge: "of_int n \<le> y \<Longrightarrow> n \<le> round_even y"
proof -
  assume "of_int n \<le> y"
  then have "n \<le> \<lfloor>y\<rfloor>" by (simp add: le_floor_iff)
  moreover have "\<lfloor>y\<rfloor> \<le> round_even y" by (simp add: round_even_def Let_def)
  ultimately show ?thesis by simp
qed

lemma round_even_of_int [simp]: "round_even (of_int n) = n"
  by (simp add: round_even_def)

lemma ilog2_nonneg: assumes "1 \<le> x" shows "0 \<le> ilog2 x"
proof (rule ccontr)
  assume "\<not> 0 \<le> ilog2 x"
  then have "ilog2 x + 1 \<le> 0" by simp
  then have "(2::real) powi (ilog2 x + 1) \<le> 2 powi 0" by (intro power_int_increasing) simp_all
  moreover have "x < 2 powi (ilog2 x + 1)" using ilog2_bounds [of x] assms by simp
  ultimately show False using assms by simp
qed

lemma double_of_ge_one:
  assumes "1 \<le> x"
  shows "double_of x = PInf \<or> (\<exists>y. double_of x = Fin y \<and> 1 \<le> y)"
proof -
  define e where "e = ilog2 x"
  have e0: "0 \<le> e" unfolding e_def by (rule ilog2_nonneg [OF assms])
  have lo: "2 powi e \<le> x" using ilog2_bounds [of x] assms unfolding e_def by simp
  define ulp :: real where "ulp = 2 powi (e - 52)"
  have ulp: "0 < ulp" by (simp add: ulp_def)
  have split: "(2::real) powi e = 2 powi 52 * ulp"
    unfolding ulp_def by (subst power_int_add [symmetric]) simp_all
  have "2 powi 52 * ulp \<le> x" using lo split by simp
  then have "2 powi 52 \<le> x / ulp" using ulp by (simp add: pos_le_divide_eq)
  then have "of_int (2 ^ 52) \<le> x / ulp" by simp
  then have m: "2 ^ 52 \<le> round_even (x / ulp)" by (rule round_even_ge)
  define r where "r = of_int (round_even (x / ulp)) * ulp"
  have "real_of_int (2 ^ 52) \<le> real_of_int (round_even (x / ulp))"
    by (subst of_int_le_iff) (rule m)
  then have "of_int (2 ^ 52) * ulp \<le> r" unfolding r_def using ulp
    by (intro mult_right_mono) simp_all
  then have "2 powi e \<le> r" using split by simp
  moreover have "(1::real) \<le> 2 powi e" using e0 by simp
  ultimately have r1: "1 \<le> r" by simp
  have "double_of x = (if 2 powi 1024 \<le> r then PInf else Fin r)"
    using assms e0 by (simp add: double_of_def Let_def e_def [symmetric] max_def ulp_def [symmetric]
        r_def [symmetric])
  then show ?thesis using r1 by simp
qed

lemma is_double_int:
  assumes "0 < n" "n < 2 ^ 53"
  shows "is_double (of_int n)"
proof -
  define x :: real where "x = of_int n"
  have x1: "1 \<le> x" using assms(1) by (simp add: x_def)
  define e where "e = ilog2 x"
  have e0: "0 \<le> e" unfolding e_def by (rule ilog2_nonneg [OF x1])
  have lo: "2 powi e \<le> x" using ilog2_bounds [of x] x1 unfolding e_def by simp
  have "real_of_int n < real_of_int (2 ^ 53)" by (subst of_int_less_iff) (rule assms(2))
  then have hi: "x < 2 ^ 53" by (simp add: x_def)
  have e52: "e \<le> 52"
  proof (rule ccontr)
    assume "\<not> e \<le> 52"
    then have "(2::real) powi 53 \<le> 2 powi e" by (intro power_int_increasing) simp_all
    then show False using lo hi by simp
  qed
  define k where "k = nat (52 - e)"
  define ulp :: real where "ulp = 2 powi (e - 52)"
  have ulp: "ulp = 1 / 2 ^ k"
    using e52 unfolding k_def ulp_def by (simp add: power_int_def field_simps)
  define r where "r = real_of_int (round_even (x / ulp)) * ulp"
  have q: "x / ulp = of_int (n * 2 ^ k)" by (simp add: x_def ulp)
  have r: "r = x" unfolding r_def q round_even_of_int by (simp add: x_def ulp)
  have "(2::real) powi 53 \<le> 2 powi 1024" by (intro power_int_increasing) simp_all
  moreover have "(2::real) powi 53 = 2 ^ 53" by simp
  ultimately have big: "\<not> (2::real) powi 1024 \<le> x" using hi by linarith
  have "double_of x = (if 2 powi 1024 \<le> r then PInf else Fin r)"
    using x1 e0
    by (simp add: double_of_def Let_def e_def [symmetric] max_def ulp_def [symmetric]
        r_def [symmetric])
  then have "double_of x = Fin x" unfolding r using big by simp
  then show ?thesis by (simp add: x_def is_double_def)
qed

subsection \<open>Dimension calculator\<close>

lemma calculate_obj:
  assumes "map_of d ''width'' = Some (Num w)" "map_of d ''height'' = Some (Num h)"
    "map_of m ''maxWidth'' = Some (Num mw)" "map_of m ''maxHeight'' = Some (Num mh)"
  shows "calculateOptimalDimensions (Obj d) (Obj m) =
     (let k = Math_min [Fin 1, jdiv mw w, jdiv mh h]
      in Inr \<lparr> width = Math_floor (jmul w k), height = Math_floor (jmul h k) \<rparr>)"
  using assms by (simp add: calculateOptimalDimensions_def ebind_def invalidType_def)

lemmas calculate_defs = calculateOptimalDimensions_def dimsObj_def maxDimsObj_def ebind_def
  invalidType_def Math_min_def Let_def double_defs

text \<open>
  C3. The bound is exceeded for a bound that is not an integer. \<open>1024 - 2^-43\<close> is the
  double next below \<open>1024\<close>, the value of the literal \<open>1023.9999999999999\<close>. For the
  dimensions \<open>6000 \<times> 4000\<close> and this number as \<open>maxWidth\<close> and as \<open>maxHeight\<close>, the
  quotient \<open>maxWidth / width\<close> is rounded up, the product \<open>width * k\<close> is rounded to
  \<open>1024\<close>, and the width returned is \<open>1024\<close>, above \<open>maxWidth\<close>.
\<close>

theorem calculateOptimalDimensions_exceeds_bound:
  "double_of (10239999999999999 / 10000000000000) = Fin (1024 - 1 / 2 ^ 43)
   \<and> calculateOptimalDimensions (dimsObj (Num (Fin 6000)) (Num (Fin 4000)))
        (maxDimsObj (Num (Fin (1024 - 1 / 2 ^ 43))) (Num (Fin (1024 - 1 / 2 ^ 43))))
       = Inr \<lparr> width = Fin 1024, height = Fin 682 \<rparr>
   \<and> \<not> jle (Fin 1024) (Fin (1024 - 1 / 2 ^ 43))"
  by (simp add: calculate_defs)

lemma jdiv_ge_one:
  assumes "0 < a" "jle (Fin a) m"
  shows "jdiv m (Fin a) = PInf \<or> (\<exists>x. jdiv m (Fin a) = Fin x \<and> 1 \<le> x)"
proof (cases m)
  case (Fin b)
  then have "1 \<le> b / a" using assms by simp
  from double_of_ge_one [OF this] show ?thesis using Fin assms(1) by simp
qed (use assms in auto)

lemma Math_min_one:
  assumes "0 < a" "0 < b" "jle (Fin a) mw" "jle (Fin b) mh"
  shows "Math_min [Fin 1, jdiv mw (Fin a), jdiv mh (Fin b)] = Fin 1"
  using jdiv_ge_one [OF assms(1,3)] jdiv_ge_one [OF assms(2,4)]
  by (auto simp: Math_min_def)

text \<open>
  C4. For a width and a height that are positive integers below \<open>2^53\<close> and within
  the bounds, \<open>calculateOptimalDimensions\<close> returns the dimensions unchanged: both
  quotients round to at least \<open>1\<close>, so that \<open>k = 1\<close>, and the products by \<open>1\<close> are
  exact, such integers being doubles.
\<close>

theorem calculateOptimalDimensions_within_bounds:
  assumes d: "map_of d ''width'' = Some (Num (Fin (of_int a)))"
             "map_of d ''height'' = Some (Num (Fin (of_int b)))"
    and m: "map_of m ''maxWidth'' = Some (Num mw)" "map_of m ''maxHeight'' = Some (Num mh)"
    and pos: "0 < a" "0 < b"
    and safe: "a < 2 ^ 53" "b < 2 ^ 53"
    and fits: "jle (Fin (of_int a)) mw" "jle (Fin (of_int b)) mh"
  shows "calculateOptimalDimensions (Obj d) (Obj m) =
           Inr \<lparr> width = Fin (of_int a), height = Fin (of_int b) \<rparr>"
proof -
  have k: "Math_min [Fin 1, jdiv mw (Fin (of_int a)), jdiv mh (Fin (of_int b))] = Fin 1"
    using pos fits by (intro Math_min_one) simp_all
  show ?thesis
    unfolding calculate_obj [OF d m] k Let_def
    by (simp add: is_double_int [OF pos(1) safe(1), unfolded is_double_def]
        is_double_int [OF pos(2) safe(2), unfolded is_double_def])
qed

theorem calculateOptimalDimensions_within_bounds_witness:
  "calculateOptimalDimensions (dimsObj (Num (Fin 800)) (Num (Fin 600)))
      (maxDimsObj (Num (Fin 1024)) (Num PInf)) = Inr \<lparr> width = Fin 800, height = Fin 600 \<rparr>"
  using calculateOptimalDimensions_within_bounds [of "[(''width'', Num (Fin 800)), (''height'', Num (Fin 600))]"
      800 600 "[(''maxWidth'', Num (Fin 1024)), (''maxHeight'', Num PInf)]" "Fin 1024" PInf]
  by (simp add: dimsObj_def maxDimsObj_def)

subsection \<open>Size compressor\<close>

text \<open>
  C1, as amended. Let the encoded size \<open>s q\<close> be monotone in the quality and some
  quality in \<open>[1, 100]\<close> give a size below \<open>maxSize\<close>. If the input is not larger than
  \<open>maxSize\<close>, \<open>compressJpeg\<close> returns the input path and leaves the files as they are
  (the size of the returned file may equal \<open>maxSize\<close>). Otherwise the returned file is
  the encoding at a quality \<open>q\<close> in \<open>[1, 100]\<close> whose size is below \<open>maxSize\<close>, and no
  quality above \<open>q\<close> and up to \<open>99\<close> gives a size below \<open>maxSize\<close>. With \<open>autoDelete\<close>
  set, the path has to contain a \<open>.\<close>: without one the output path is the input path,
  and the file is deleted after it is written. When the input is larger than
  \<open>maxSize\<close>, the output path has to be one where a file can be written.
\<close>

theorem compressJpeg_converges:
  fixes s :: "int \<Rightarrow> nat"
  assumes fl: "files w p = Some d" and acc: "accepts sh d"
    and enc: "\<And>q. 1 \<le> q \<Longrightarrow> q \<le> 100 \<Longrightarrow> \<exists>out. jpeg sh d q = Some out \<and> length out = s q"
    and mono: "\<And>q q'. 1 \<le> q \<Longrightarrow> q \<le> q' \<Longrightarrow> q' \<le> 100 \<Longrightarrow> s q \<le> s q'"
    and reach: "\<exists>q. 1 \<le> q \<and> q \<le> 100 \<and> jlt (Fin (real (s q))) maxSize"
    and keep: "CHR ''.'' \<in> set p \<or> \<not> truthy autoDelete"
    and wr: "\<not> jle (Fin (real (length d))) maxSize \<Longrightarrow>
               can_write w (String_replace ''.'' ''-compressed.'' p)"
  shows "\<exists>np w'. compressJpeg sh (Str p) (Num maxSize) autoDelete w = (Inr np, w') \<and>
     (if jle (Fin (real (length d))) maxSize
      then np = p \<and> files w' = files w
      else np = String_replace ''.'' ''-compressed.'' p \<and>
           (\<exists>q. 1 \<le> q \<and> q \<le> 100 \<and> files w' np = jpeg sh d q
               \<and> jlt (Fin (real (s q))) maxSize
               \<and> (\<forall>q'. q < q' \<and> q' \<le> 99 \<longrightarrow> \<not> jlt (Fin (real (s q'))) maxSize)))"
proof (cases "jle (Fin (real (length d))) maxSize")
  case True
  then show ?thesis by (simp add: compressJpeg_small_eq [OF fl acc True])
next
  case big: False
  let ?np = "String_replace ''.'' ''-compressed.'' p"
  let ?w1 = "w\<lparr>events := events w @ [ReadFile p, Stat p]\<rparr>"
  have cw: "can_write ?w1 ?np" using wr [OF big] by simp
  have "jpeg sh d q \<noteq> None" if "1 < q" "q < 100" for q using enc [of q] that by auto
  from compress_loop_total [OF this cw] obtain l r w2
    where loop: "compress_loop sh d ?np maxSize 1 100 ?w1 = (Inr (l, r), w2)" by blast
  from compress_loop_head [OF loop loop_head.enter]
  have head: "loop_head sh d ?np maxSize ?w1 l r w2" and stop: "r - l \<le> 1" by simp_all
  from loop_head_inv [OF head]
  have inv: "1 \<le> l" "l < r" "r \<le> 100"
    "l = 1 \<or> below sh d maxSize l" "r = 100 \<or> not_below sh d maxSize r"
    by (auto simp: search_inv_def)
  have r: "r = l + 1" using stop inv(2) by simp
  have l99: "l \<le> 99" using r inv(3) by simp
  obtain out where out: "jpeg sh d l = Some out" "length out = s l"
    using enc [of l] inv(1) l99 by auto
  have good: "jlt (Fin (real (s l))) maxSize"
  proof (cases "l = 1")
    case True
    from reach obtain q0 where q0: "1 \<le> q0" "q0 \<le> 100" "jlt (Fin (real (s q0))) maxSize" by blast
    have "s 1 \<le> s q0" using mono [of 1 q0] q0 by simp
    then show ?thesis using jlt_mono [of "real (s 1)" "real (s q0)"] q0(3) True by simp
  next
    case False
    with inv(4) out show ?thesis by (simp add: below_def)
  qed
  have maxi: "\<not> jlt (Fin (real (s q'))) maxSize" if q': "l < q'" "q' \<le> 99" for q'
  proof
    assume lt: "jlt (Fin (real (s q'))) maxSize"
    have r100: "r \<noteq> 100" using r q' by simp
    obtain outr where outr: "jpeg sh d r = Some outr" "length outr = s r"
      using enc [of r] inv by auto
    have nb: "\<not> jlt (Fin (real (s r))) maxSize" using inv(5) r100 outr by (simp add: not_below_def)
    have "s r \<le> s q'" using mono [of r q'] r q' inv(1) by simp
    then show False using jlt_mono [of "real (s r)" "real (s q')"] lt nb by simp
  qed
  have np: "truthy autoDelete \<Longrightarrow> ?np \<noteq> p" using keep String_replace_dot_neq by blast
  have fin: "snd (compressJpeg sh (Str p) (Num maxSize) autoDelete w) = w' \<Longrightarrow> files w' ?np = jpeg sh d l" for w'
    using np by (auto simp: compressJpeg_search_eq [OF fl acc big loop out(1) wr [OF big]] out(1))
  have res: "fst (compressJpeg sh (Str p) (Num maxSize) autoDelete w) = Inr ?np"
    by (simp add: compressJpeg_search_eq [OF fl acc big loop out(1) wr [OF big]])
  obtain w' where w': "compressJpeg sh (Str p) (Num maxSize) autoDelete w = (Inr ?np, w')"
    using res by (cases "compressJpeg sh (Str p) (Num maxSize) autoDelete w") simp
  have "files w' ?np = jpeg sh d l" using fin [of w'] w' by simp
  moreover have "l \<le> 100" using l99 by simp
  ultimately have
    "\<exists>q. 1 \<le> q \<and> q \<le> 100 \<and> files w' ?np = jpeg sh d q \<and> jlt (Fin (real (s q))) maxSize
        \<and> (\<forall>q'. q < q' \<and> q' \<le> 99 \<longrightarrow> \<not> jlt (Fin (real (s q'))) maxSize)"
    using inv(1) good maxi by blast
  with w' big show ?thesis by simp
qed

theorem compressJpeg_converges_witness:
  "\<exists>np w'. compressJpeg demo_sharp (Str ''a.jpeg'') (Num (Fin 51)) (Bool True)
              (demo_world ''a.jpeg'' 2000) = (Inr np, w') \<and>
     np = ''a-compressed.jpeg'' \<and>
     (\<exists>q. 1 \<le> q \<and> q \<le> 100 \<and> files w' np = jpeg demo_sharp (replicate 2000 1) q
         \<and> jlt (Fin (real (nat q))) (Fin 51)
         \<and> (\<forall>q'. q < q' \<and> q' \<le> 99 \<longrightarrow> \<not> jlt (Fin (real (nat q'))) (Fin 51)))"
proof -
  have fl: "files (demo_world ''a.jpeg'' 2000) ''a.jpeg'' = Some (replicate 2000 1)"
    by (simp add: demo_world_def)
  have acc: "accepts demo_sharp (replicate 2000 1)" by (simp add: demo_sharp_def)
  have enc: "\<exists>out. jpeg demo_sharp (replicate 2000 1) q = Some out \<and> length out = nat q" for q
    by (simp add: demo_sharp_def)
  have mono: "nat q \<le> nat q'" if "q \<le> q'" for q q' :: int using that by simp
  have reach: "\<exists>q. 1 \<le> q \<and> q \<le> 100 \<and> jlt (Fin (real (nat q))) (Fin 51)"
    by (rule exI [of _ 1]) simp
  have keep: "CHR ''.'' \<in> set ''a.jpeg'' \<or> \<not> truthy (Bool True)" by simp
  have wr: "can_write (demo_world ''a.jpeg'' 2000) (String_replace ''.'' ''-compressed.'' ''a.jpeg'')"
    by (simp add: can_write_def dirname_def)
  show ?thesis
    using compressJpeg_converges [of "demo_world ''a.jpeg'' 2000" "''a.jpeg''" "replicate 2000 1"
      demo_sharp nat "Fin 51" "Bool True", OF fl acc enc mono reach keep wr]
    by simp
qed

text \<open>
  C1 as stated fails twice. A file of exactly \<open>maxSize\<close> bytes is returned as it is,
  so its size is not strictly below \<open>maxSize\<close>, although quality \<open>1\<close> would give a
  smaller file. And when every quality gives a size below \<open>maxSize\<close>, the search ends
  at quality \<open>99\<close>: quality \<open>100\<close> is never tried.
\<close>

theorem compressJpeg_converges_counterexample:
  "fst (compressJpeg demo_sharp (Str ''a.jpeg'') (Num (Fin 1000)) (Bool False)
          (demo_world ''a.jpeg'' 1000)) = Inr ''a.jpeg''
   \<and> map_option length (files (snd (compressJpeg demo_sharp (Str ''a.jpeg'') (Num (Fin 1000))
          (Bool False) (demo_world ''a.jpeg'' 1000))) ''a.jpeg'') = Some 1000
   \<and> map_option length (jpeg demo_sharp (replicate 1000 1) 1) = Some 1
   \<and> fst (compressJpeg demo_sharp (Str ''a.jpeg'') (Num (Fin 1000)) (Bool False)
          (demo_world ''a.jpeg'' 2000)) = Inr ''a-compressed.jpeg''
   \<and> files (snd (compressJpeg demo_sharp (Str ''a.jpeg'') (Num (Fin 1000)) (Bool False)
          (demo_world ''a.jpeg'' 2000))) ''a-compressed.jpeg'' = jpeg demo_sharp (replicate 2000 1) 99
   \<and> map_option length (jpeg demo_sharp (replicate 2000 1) 99) = Some 99
   \<and> map_option length (jpeg demo_sharp (replicate 2000 1) 100) = Some 100"
  by (simp add: eval_defs)

text \<open>
  C7. When the input file exists, \<open>sharp\<close> takes its bytes and its size is at most
  \<open>maxSize\<close>, \<open>compressJpeg\<close> returns the input path, leaves every file as it is, and
  only reads the file and asks for its size: nothing is encoded.
\<close>

theorem compressJpeg_noop:
  assumes "files w p = Some d" and "accepts sh d" and "jle (Fin (real (length d))) maxSize"
  shows "\<exists>w'. compressJpeg sh (Str p) (Num maxSize) autoDelete w = (Inr p, w')
           \<and> files w' = files w \<and> events w' = events w @ [ReadFile p, Stat p]"
  using assms by (simp add: compressJpeg_small_eq)

theorem compressJpeg_noop_witness:
  "\<exists>w'. compressJpeg demo_sharp (Str ''a.jpeg'') (Num (Fin 1000)) (Bool True)
           (demo_world ''a.jpeg'' 1000) = (Inr ''a.jpeg'', w')
      \<and> files w' = files (demo_world ''a.jpeg'' 1000)
      \<and> events w' = events (demo_world ''a.jpeg'' 1000) @ [ReadFile ''a.jpeg'', Stat ''a.jpeg'']"
proof -
  have fl: "files (demo_world ''a.jpeg'' 1000) ''a.jpeg'' = Some (replicate 1000 1)"
    by (simp add: demo_world_def)
  have acc: "accepts demo_sharp (replicate 1000 1)" by (simp add: demo_sharp_def)
  have le: "jle (Fin (real (length (replicate 1000 (1 :: 8 word))))) (Fin 1000)" by simp
  show ?thesis by (rule compressJpeg_noop [OF fl acc le])
qed

lemma compress_loop_exit:
  assumes "compress_loop sh d np maxSize 1 100 w1 = (Inr (l, r), w2)"
  shows "search_inv sh d np maxSize w2 l r \<and> r = l + 1"
proof -
  from compress_loop_head [OF assms loop_head.enter]
  have head: "loop_head sh d np maxSize w1 l r w2" and stop: "r - l \<le> 1" by simp_all
  from loop_head_inv [OF head] have inv: "search_inv sh d np maxSize w2 l r" .
  then have "l < r" by (simp add: search_inv_def)
  with stop inv show ?thesis by simp
qed


text \<open>
  C10. Whatever its outcome, \<open>compressJpeg\<close> reads the input file once, first, and
  every encoding it asks of the codec, in the loop and after it, has the bytes read
  there as its source, the output path as its destination and a quality in
  \<open>[1, 99]\<close>; this holds too when the output path is the input path and the file is
  overwritten between two encodings. When it returns a new path, the file there is the
  codec's output for the bytes read and one such quality.
\<close>

theorem compressJpeg_encodes_input_bytes:
  assumes fl: "files w p = Some d"
    and run: "compressJpeg sh (Str p) (Num maxSize) autoDelete w = (res, w')"
  shows "(\<exists>rest. events w' = events w @ ReadFile p # rest \<and>
           (\<forall>e\<in>set rest. e = Stat p \<or> e = Stat (String_replace ''.'' ''-compressed.'' p)
               \<or> e = Unlink p
               \<or> (\<exists>q. e = JpegToFile d q (String_replace ''.'' ''-compressed.'' p)
                      \<and> 1 \<le> q \<and> q \<le> 99)))
       \<and> (\<forall>np. res = Inr np \<longrightarrow>
             (np = p \<and> files w' = files w)
           \<or> (np = String_replace ''.'' ''-compressed.'' p
               \<and> (\<exists>q. 1 \<le> q \<and> q \<le> 99 \<and> jpeg sh d q \<noteq> None
                     \<and> (np \<noteq> p \<or> \<not> truthy autoDelete \<longrightarrow> files w' np = jpeg sh d q))))"
proof (cases "accepts sh d")
  case False
  then have "events w' = events w @ [ReadFile p] \<and> res = Inl IOFailure"
    using fl run
    by (auto simp: compressJpeg_def bind_io_def liftE_def fs_readFile_def sharp_new_def
        record_event_def)
  then show ?thesis by simp
next
  case acc: True
  let ?np = "String_replace ''.'' ''-compressed.'' p"
  let ?w1 = "w\<lparr>events := events w @ [ReadFile p, Stat p]\<rparr>"
  let ?ok = "\<lambda>e. e = Stat p \<or> e = Stat ?np \<or> e = Unlink p
               \<or> (\<exists>q. e = JpegToFile d q ?np \<and> 1 \<le> q \<and> q \<le> 99)"
  show ?thesis
  proof (cases "jle (Fin (real (length d))) maxSize")
    case True
    then have "events w' = events w @ [ReadFile p, Stat p] \<and> res = Inr p \<and> files w' = files w"
      using run by (auto simp: compressJpeg_small_eq [OF fl acc True])
    then show ?thesis by simp
  next
    case big: False
    obtain r1 w2 where loop: "compress_loop sh d ?np maxSize 1 100 ?w1 = (r1, w2)"
      by (cases "compress_loop sh d ?np maxSize 1 100 ?w1")
    from compress_loop_effects [OF loop] obtain evs
      where evs: "events w2 = events ?w1 @ evs" "search_events d ?np 1 100 evs" by blast
    have ok_evs: "\<forall>e\<in>set evs. ?ok e"
      using evs(2) unfolding search_events_def by fastforce
    have ev2: "events w2 = events w @ ReadFile p # (Stat p # evs)" using evs(1) by simp
    show ?thesis
    proof (cases r1)
      case (Inl e)
      then have "w' = w2 \<and> res = Inl e"
        using run big loop by (auto simp: compressJpeg_start [OF fl acc] bind_io_def)
      then have "events w' = events w @ ReadFile p # (Stat p # evs)" "res = Inl e"
        using ev2 by simp_all
      moreover have "\<forall>e\<in>set (Stat p # evs). ?ok e" using ok_evs by simp
      ultimately show ?thesis by blast
    next
      case (Inr lr)
      obtain l r where lr: "lr = (l, r)" by (cases lr)
      have loop': "compress_loop sh d ?np maxSize 1 100 ?w1 = (Inr (l, r), w2)"
        using loop Inr lr by simp
      from compress_loop_exit [OF loop'] have l: "1 \<le> l" "l \<le> 99"
        by (auto simp: search_inv_def)
      show ?thesis
      proof (cases "jpeg sh d l = None \<or> \<not> can_write w ?np")
        case True
        have "events w' = events w2 @ [JpegToFile d l ?np] \<and> res = Inl IOFailure"
          using run compressJpeg_last_fails [OF fl acc big loop' True, of autoDelete] by auto
        then have "events w' = events w @ ReadFile p # (Stat p # evs @ [JpegToFile d l ?np])"
          "res = Inl IOFailure"
          using ev2 by simp_all
        moreover have "\<forall>e\<in>set (Stat p # evs @ [JpegToFile d l ?np]). ?ok e"
          using ok_evs l by auto
        ultimately show ?thesis by blast
      next
        case False
        then obtain out where out: "jpeg sh d l = Some out" and wr: "can_write w ?np" by auto
        note eq = compressJpeg_search_eq [OF fl acc big loop' out wr, of autoDelete]
        have res: "res = Inr ?np" using run eq by simp
        have ev: "events w' = events w2 @ JpegToFile d l ?np # (if truthy autoDelete then [Unlink p] else [])"
          using run eq by auto
        have fin: "?np \<noteq> p \<or> \<not> truthy autoDelete \<longrightarrow> files w' ?np = jpeg sh d l"
          using run eq out by auto
        have "events w' = events w @ ReadFile p #
            (Stat p # evs @ JpegToFile d l ?np # (if truthy autoDelete then [Unlink p] else []))"
          using ev ev2 by simp
        moreover have "\<forall>e\<in>set (Stat p # evs @ JpegToFile d l ?np
            # (if truthy autoDelete then [Unlink p] else [])). ?ok e"
          using ok_evs l by auto
        ultimately have first: "\<exists>rest. events w' = events w @ ReadFile p # rest \<and> (\<forall>e\<in>set rest. ?ok e)"
          by blast
        have "\<exists>q. 1 \<le> q \<and> q \<le> 99 \<and> jpeg sh d q \<noteq> None
                \<and> (?np \<noteq> p \<or> \<not> truthy autoDelete \<longrightarrow> files w' ?np = jpeg sh d q)"
          using l out fin by (intro exI [of _ l]) simp
        with first res show ?thesis by simp
      qed
    qed
  qed
qed

theorem compressJpeg_encodes_input_bytes_witness:
  "(\<exists>rest. events (snd (compressJpeg demo_sharp (Str ''img'') (Num (Fin 51)) (Bool False)
                 (demo_world ''img'' 2000))) = ReadFile ''img'' # rest \<and>
      list_all (\<lambda>e. e = Stat ''img'' \<or> e = Unlink ''img''
               \<or> (\<exists>q. e = JpegToFile (replicate 2000 1) q ''img'' \<and> 1 \<le> q \<and> q \<le> 99)) rest)
   \<and> fst (compressJpeg demo_sharp (Str ''img'') (Num (Fin 51)) (Bool False)
                 (demo_world ''img'' 2000)) = Inr ''img''
   \<and> (\<exists>q. 1 \<le> q \<and> q \<le> 99 \<and>
         files (snd (compressJpeg demo_sharp (Str ''img'') (Num (Fin 51)) (Bool False)
                 (demo_world ''img'' 2000))) ''img'' = jpeg demo_sharp (replicate 2000 1) q)"
proof -
  let ?run = "compressJpeg demo_sharp (Str ''img'') (Num (Fin 51)) (Bool False)
                 (demo_world ''img'' 2000)"
  have fl: "files (demo_world ''img'' 2000) ''img'' = Some (replicate 2000 1)"
    by (simp add: demo_world_def)
  have r: "fst ?run = Inr ''img''" by (simp add: eval_defs)
  then obtain w' where run: "?run = (Inr ''img'', w')" by (cases ?run) simp
  have changed: "files w' \<noteq> files (demo_world ''img'' 2000)"
  proof
    assume "files w' = files (demo_world ''img'' 2000)"
    then have "files (snd ?run) ''img'' = Some (replicate 2000 1)" using run fl by simp
    then show False by (simp add: eval_defs)
  qed
  from compressJpeg_encodes_input_bytes [OF fl run] changed run
  show ?thesis by (auto simp: demo_world_def list_all_iff)
qed


lemma not_jlt_jle: "m \<noteq> NaN \<Longrightarrow> \<not> jlt (Fin a) m \<Longrightarrow> jle m (Fin a)"
  by (cases m) auto

lemma loop_head_next:
  assumes head: "loop_head sh d np maxSize w1 left right wl"
    and guard: "right - left > 1"
    and enc: "\<And>q. 1 \<le> q \<Longrightarrow> q \<le> 99 \<Longrightarrow> jpeg sh d q \<noteq> None"
    and wr: "can_write w1 np"
  shows "\<exists>l' r' wn. compress_step sh d np maxSize left right wl = (Inr (l', r'), wn)
           \<and> events wn = events wl @ [JpegToFile d ((left + right) div 2) np, Stat np]
           \<and> loop_head sh d np maxSize w1 l' r' wn"
proof -
  have inv: "1 \<le> left" "right \<le> 100" using loop_head_inv [OF head] by (simp_all add: search_inv_def)
  have "1 \<le> (left + right) div 2" "(left + right) div 2 \<le> 99"
    using mid_between [OF guard] inv by linarith+
  then obtain out where out: "jpeg sh d ((left + right) div 2) = Some out"
    using enc by fastforce
  obtain l' r' where lr: "(if jlt (Fin (real (length out))) maxSize then ((left + right) div 2, right)
           else (left, (left + right) div 2)) = (l', r')"
    by fastforce
  let ?wn = "wl\<lparr>files := (files wl)(np \<mapsto> out),
        events := events wl @ [JpegToFile d ((left + right) div 2) np, Stat np]\<rparr>"
  have cw: "can_write wl np" using wr loop_head_dirs [OF head] by (simp add: can_write_def)
  have st: "compress_step sh d np maxSize left right wl = (Inr (l', r'), ?wn)"
    using compress_step_Some [OF out cw, of maxSize] lr by simp
  have "loop_head sh d np maxSize w1 l' r' ?wn" by (rule loop_head.again [OF head guard st])
  with st show ?thesis by simp
qed

text \<open>
  C2. Let the input be larger than \<open>maxSize\<close>, a positive number, the codec succeed
  and the output path be one where a file can be written.
  Each time the condition of the loop is evaluated, \<open>1 \<le> left < right \<le> 100\<close>,
  \<open>left\<close> is \<open>1\<close> or a quality that was tried and gave a size below the budget, and
  \<open>right\<close> is \<open>100\<close> or a quality that was tried and gave a size that met or exceeded
  it; while \<open>right - left > 1\<close>, the next pass encodes at
  \<open>Math.floor((left + right) / 2)\<close>. The loop ends with \<open>right - left \<le> 1\<close>, one more
  encoding at \<open>left\<close> follows, and \<open>compressJpeg\<close> returns the output path; when no
  quality gives a size below the budget, that last encoding is at quality \<open>1\<close>.
\<close>

theorem compressJpeg_search_invariant:
  assumes fl: "files w p = Some d" and acc: "accepts sh d"
    and big: "\<not> jle (Fin (real (length d))) maxSize"
    and pos: "jlt (Fin 0) maxSize"
    and enc: "\<And>q. 1 \<le> q \<Longrightarrow> q \<le> 99 \<Longrightarrow> jpeg sh d q \<noteq> None"
    and np: "np = String_replace ''.'' ''-compressed.'' p"
    and wr: "can_write w np"
    and w1: "w1 = w\<lparr>events := events w @ [ReadFile p, Stat p]\<rparr>"
  shows "(\<forall>left right wl. loop_head sh d np maxSize w1 left right wl \<longrightarrow>
            1 \<le> left \<and> left < right \<and> right \<le> 100
          \<and> (left = 1 \<or> (JpegToFile d left np \<in> set (events wl)
                \<and> (\<exists>out. jpeg sh d left = Some out \<and> jlt (Fin (real (length out))) maxSize)))
          \<and> (right = 100 \<or> (JpegToFile d right np \<in> set (events wl)
                \<and> (\<exists>out. jpeg sh d right = Some out \<and> jle maxSize (Fin (real (length out))))))
          \<and> (right - left > 1 \<longrightarrow>
                (\<exists>l' r' wn. compress_step sh d np maxSize left right wl = (Inr (l', r'), wn)
                   \<and> events wn = events wl @ [JpegToFile d ((left + right) div 2) np, Stat np]
                   \<and> loop_head sh d np maxSize w1 l' r' wn)))
       \<and> (\<exists>left right w2 out w'.
            compress_loop sh d np maxSize 1 100 w1 = (Inr (left, right), w2)
          \<and> loop_head sh d np maxSize w1 left right w2 \<and> right - left \<le> 1
          \<and> jpeg sh d left = Some out
          \<and> compressJpeg sh (Str p) (Num maxSize) autoDelete w = (Inr np, w')
          \<and> events w' = events w2 @ JpegToFile d left np # (if truthy autoDelete then [Unlink p] else [])
          \<and> (np \<noteq> p \<or> \<not> truthy autoDelete \<longrightarrow> files w' np = Some out)
          \<and> ((\<forall>q. 1 \<le> q \<and> q \<le> 100 \<longrightarrow> \<not> below sh d maxSize q) \<longrightarrow> left = 1))"
proof (intro conjI allI impI)
  have nan: "maxSize \<noteq> NaN" using pos by auto
  fix left right wl
  assume head: "loop_head sh d np maxSize w1 left right wl"
  from loop_head_inv [OF head]
  have inv: "1 \<le> left" "left < right" "right \<le> 100"
    "left = 1 \<or> (tried d np wl left \<and> below sh d maxSize left)"
    "right = 100 \<or> (tried d np wl right \<and> not_below sh d maxSize right)"
    by (auto simp: search_inv_def)
  show "1 \<le> left" "left < right" "right \<le> 100" by (rule inv)+
  show "left = 1 \<or> (JpegToFile d left np \<in> set (events wl)
          \<and> (\<exists>out. jpeg sh d left = Some out \<and> jlt (Fin (real (length out))) maxSize))"
    using inv(4) by (auto simp: tried_def below_def split: option.splits)
  show "right = 100 \<or> (JpegToFile d right np \<in> set (events wl)
          \<and> (\<exists>out. jpeg sh d right = Some out \<and> jle maxSize (Fin (real (length out)))))"
    using inv(5) not_jlt_jle [OF nan] by (auto simp: tried_def not_below_def split: option.splits)
  assume guard: "1 < right - left"
  show "\<exists>l' r' wn. compress_step sh d np maxSize left right wl = (Inr (l', r'), wn)
           \<and> events wn = events wl @ [JpegToFile d ((left + right) div 2) np, Stat np]
           \<and> loop_head sh d np maxSize w1 l' r' wn"
  proof -
    have cw: "can_write w1 np" using wr by (simp add: w1)
    show ?thesis by (rule loop_head_next [OF head guard enc cw])
  qed
next
  have cw: "can_write w1 np" using wr by (simp add: w1)
  have "jpeg sh d q \<noteq> None" if "1 < q" "q < 100" for q using enc [of q] that by simp
  from compress_loop_total [OF this cw] obtain l r w2
    where loop: "compress_loop sh d np maxSize 1 100 w1 = (Inr (l, r), w2)" by blast
  from compress_loop_head [OF loop loop_head.enter]
  have head: "loop_head sh d np maxSize w1 l r w2" and stop: "r - l \<le> 1" by simp_all
  from compress_loop_exit [OF loop]
  have inv: "1 \<le> l" "l \<le> 99" "l = 1 \<or> below sh d maxSize l" by (auto simp: search_inv_def)
  obtain out where out: "jpeg sh d l = Some out" using enc [of l] inv by auto
  note eq = compressJpeg_search_eq [OF fl acc big loop [unfolded np w1] out wr [unfolded np],
      folded np, of autoDelete]
  obtain w' where w': "compressJpeg sh (Str p) (Num maxSize) autoDelete w = (Inr np, w')"
    using eq by simp
  have ev: "events w' = events w2 @ JpegToFile d l np # (if truthy autoDelete then [Unlink p] else [])"
    using eq w' by auto
  have fin: "np \<noteq> p \<or> \<not> truthy autoDelete \<longrightarrow> files w' np = Some out"
    using eq w' by auto
  have none: "(\<forall>q. 1 \<le> q \<and> q \<le> 100 \<longrightarrow> \<not> below sh d maxSize q) \<longrightarrow> l = 1"
    using inv by auto
  show "\<exists>left right w2 out w'.
            compress_loop sh d np maxSize 1 100 w1 = (Inr (left, right), w2)
          \<and> loop_head sh d np maxSize w1 left right w2 \<and> right - left \<le> 1
          \<and> jpeg sh d left = Some out
          \<and> compressJpeg sh (Str p) (Num maxSize) autoDelete w = (Inr np, w')
          \<and> events w' = events w2 @ JpegToFile d left np # (if truthy autoDelete then [Unlink p] else [])
          \<and> (np \<noteq> p \<or> \<not> truthy autoDelete \<longrightarrow> files w' np = Some out)
          \<and> ((\<forall>q. 1 \<le> q \<and> q \<le> 100 \<longrightarrow> \<not> below sh d maxSize q) \<longrightarrow> left = 1)"
    using loop head stop out w' ev fin none by blast
qed

theorem compressJpeg_search_invariant_witness:
  "\<exists>w2 w'. compress_loop demo_sharp (replicate 2000 1) ''a-compressed.jpeg'' (Fin 1) 1 100
              ((demo_world ''a.jpeg'' 2000)\<lparr>events := [ReadFile ''a.jpeg'', Stat ''a.jpeg'']\<rparr>)
              = (Inr (1, 2), w2)
     \<and> JpegToFile (replicate 2000 1) 2 ''a-compressed.jpeg'' \<in> set (events w2)
     \<and> jle (Fin 1) (Fin (real (length (the (jpeg demo_sharp (replicate 2000 1) 2)))))
     \<and> compressJpeg demo_sharp (Str ''a.jpeg'') (Num (Fin 1)) (Bool True) (demo_world ''a.jpeg'' 2000)
          = (Inr ''a-compressed.jpeg'', w')
     \<and> files w' ''a-compressed.jpeg'' = jpeg demo_sharp (replicate 2000 1) 1
     \<and> events w' = events w2 @ [JpegToFile (replicate 2000 1) 1 ''a-compressed.jpeg'', Unlink ''a.jpeg'']"
proof -
  let ?d = "replicate 2000 (1 :: 8 word)"
  let ?w = "demo_world ''a.jpeg'' 2000"
  let ?w1 = "?w\<lparr>events := [ReadFile ''a.jpeg'', Stat ''a.jpeg'']\<rparr>"
  let ?np = "''a-compressed.jpeg''"
  have fl: "files ?w ''a.jpeg'' = Some ?d" by (simp add: demo_world_def)
  have acc: "accepts demo_sharp ?d" by (simp add: demo_sharp_def)
  have big: "\<not> jle (Fin (real (length ?d))) (Fin 1)" by simp
  have pos: "jlt (Fin 0) (Fin 1)" by simp
  have enc: "jpeg demo_sharp ?d q \<noteq> None" for q by (simp add: demo_sharp_def)
  have np: "?np = String_replace ''.'' ''-compressed.'' ''a.jpeg''" by simp
  have wr: "can_write ?w ?np" by (simp add: can_write_def dirname_def)
  have w1: "?w1 = ?w\<lparr>events := events ?w @ [ReadFile ''a.jpeg'', Stat ''a.jpeg'']\<rparr>"
    by (simp add: demo_world_def)
  have none: "\<forall>q. 1 \<le> q \<and> q \<le> 100 \<longrightarrow> \<not> below demo_sharp ?d (Fin 1) q"
    by (simp add: below_def demo_sharp_def)
  note inst = compressJpeg_search_invariant [OF fl acc big pos enc np wr w1, of "Bool True"]
  from inst obtain left right w2 out w' where
    loop: "compress_loop demo_sharp ?d ?np (Fin 1) 1 100 ?w1 = (Inr (left, right), w2)"
    and head: "loop_head demo_sharp ?d ?np (Fin 1) ?w1 left right w2"
    and stop: "right - left \<le> 1"
    and out: "jpeg demo_sharp ?d left = Some out"
    and res: "compressJpeg demo_sharp (Str ''a.jpeg'') (Num (Fin 1)) (Bool True) ?w = (Inr ?np, w')"
    and ev: "events w' = events w2 @ JpegToFile ?d left ?np # (if truthy (Bool True) then [Unlink ''a.jpeg''] else [])"
    and fin: "?np \<noteq> ''a.jpeg'' \<or> \<not> truthy (Bool True) \<longrightarrow> files w' ?np = Some out"
    and one: "(\<forall>q. 1 \<le> q \<and> q \<le> 100 \<longrightarrow> \<not> below demo_sharp ?d (Fin 1) q) \<longrightarrow> left = 1"
    by blast
  have left: "left = 1" using one none by blast
  from inst head have at_head: "left < right"
    "right = 100 \<or> (JpegToFile ?d right ?np \<in> set (events w2)
        \<and> (\<exists>out. jpeg demo_sharp ?d right = Some out \<and> jle (Fin 1) (Fin (real (length out)))))"
    by blast+
  have right: "right = 2" using at_head(1) stop left by simp
  have tried: "JpegToFile ?d 2 ?np \<in> set (events w2)" using at_head(2) right by simp
  have "files w' ?np = jpeg demo_sharp ?d 1" using fin out left by simp
  moreover have "events w' = events w2 @ [JpegToFile ?d 1 ?np, Unlink ''a.jpeg'']"
    using ev left by simp
  moreover have "jle (Fin 1) (Fin (real (length (the (jpeg demo_sharp ?d 2)))))"
    by (simp add: demo_sharp_def)
  ultimately show ?thesis using loop res tried left right by blast
qed

subsection \<open>Paths and formats\<close>

lemma bind_io_InrE:
  assumes "bind_io m f w = (Inr b, w')"
  obtains a w1 where "m w = (Inr a, w1)" "f a w1 = (Inr b, w')"
  using assms by (auto simp: bind_io_def split: prod.splits sum.splits)

lemma liftE_eq [simp]: "liftE r w = (x, w') \<longleftrightarrow> (x = r \<and> w' = w)"
  by (auto simp: liftE_def)

lemma return_io_eq [simp]: "return_io a w = (x, w') \<longleftrightarrow> (x = Inr a \<and> w' = w)"
  by (auto simp: return_io_def)

lemma getFormat_Str:
  "getFormat (Str p) = (case regex_match p of None \<Rightarrow> Inl NotAnImage | Some fmt \<Rightarrow> Inr fmt)"
  by (simp add: getFormat_def ebind_def)

lemma convertToJpeg_Str:
  "convertToJpeg sh (Str p) autoDelete w =
     (case regex_match p of
        None \<Rightarrow> (Inl NotAnImage, w)
      | Some fmt \<Rightarrow>
          if fmt = ''.jpeg'' \<or> fmt = ''.jpg'' then (Inr p, w)
          else bind_io (fs_readFile p) (\<lambda>d.
               bind_io (sharp_new sh d) (\<lambda>inst.
               bind_io (jpeg_toFile sh inst 100 (String_replace fmt ''.jpeg'' p)) (\<lambda>_.
               bind_io (if truthy autoDelete then fs_unlink p else return_io ()) (\<lambda>_.
               return_io (String_replace fmt ''.jpeg'' p))))) w)"
  by (simp add: convertToJpeg_def getFormat_Str Let_def return_io_def split: option.splits)

lemma prefix_dot_free:
  assumes "prefix e (s @ CHR ''.'' # t)" "CHR ''.'' \<notin> set (tl e)" "e \<noteq> []" "s \<noteq> []"
  shows "prefix e s"
proof (rule ccontr)
  assume n: "\<not> prefix e s"
  from assms(1) have "prefix e s \<or> (\<exists>us. e = s @ us \<and> prefix us (CHR ''.'' # t))"
    by (simp only: prefix_append)
  with n obtain us where us0: "e = s @ us" "prefix us (CHR ''.'' # t)" by blast
  have "us \<noteq> []" using n us0(1) by auto
  note us = this us0
  from us(1,3) have "hd us = CHR ''.''" by (cases us) auto
  with us(1) have "CHR ''.'' \<in> set us" by (cases us) auto
  moreover have "set us \<subseteq> set (tl e)" using us(2) assms(4) by (cases s) auto
  ultimately show False using assms(2) by blast
qed

lemma formats_cases:
  "e \<in> set formats \<Longrightarrow>
     e = ''.png'' \<or> e = ''.svg'' \<or> e = ''.jpg'' \<or> e = ''.jpeg'' \<or> e = ''.gif''"
  by (simp add: formats_def)

lemma formats_shape:
  assumes "e \<in> set formats"
  shows "e \<noteq> [] \<and> hd e = CHR ''.'' \<and> CHR ''.'' \<notin> set (tl e)"
  using formats_cases [OF assms] by (elim disjE) simp_all

lemma regex_match_self:
  assumes "e \<in> set formats" shows "regex_match (e @ t) = Some e"
  using formats_cases [OF assms] by (elim disjE) (simp_all add: formats_def)

lemma regex_match_last:
  assumes "regex_match base = None" "ext \<in> set formats"
  shows "regex_match (base @ ext) = Some ext \<and> String_replace ext r (base @ ext) = base @ r"
  using assms(1)
proof (induction base)
  case Nil
  obtain c cs where e: "ext = c # cs" using formats_shape [OF assms(2)] by (cases ext) auto
  have "String_replace ext r ext = r" unfolding e by simp
  then show ?case using regex_match_self [OF assms(2), of "[]"] by simp
next
  case (Cons c cs)
  from Cons.prems have none: "find (\<lambda>e. prefix e (c # cs)) formats = None"
    and rest: "regex_match cs = None"
    by (auto split: option.splits)
  obtain t where ext: "ext = CHR ''.'' # t"
    using formats_shape [OF assms(2)] by (cases ext) auto
  have no: "\<not> prefix e ((c # cs) @ ext)" if "e \<in> set formats" for e
  proof
    assume "prefix e ((c # cs) @ ext)"
    then have "prefix e (c # cs)"
      using prefix_dot_free [of e "c # cs" t] formats_shape [OF that] unfolding ext by simp
    with none that show False by (auto simp: find_None_iff)
  qed
  then have "find (\<lambda>e. prefix e (c # cs @ ext)) formats = None"
    by (auto simp: find_None_iff)
  moreover have "\<not> prefix ext (c # cs @ ext)" using no [OF assms(2)] by simp
  ultimately show ?case using Cons.IH [OF rest] by simp
qed

text \<open>
  C5, as amended. For a path that ends in \<open>.jpg\<close> or \<open>.jpeg\<close> and has no recognised
  extension before that ending, \<open>convertToJpeg\<close> returns the path and the world is as
  before: no file is read, written or deleted, no call is made, whatever \<open>autoDelete\<close>
  is.
\<close>

theorem convertToJpeg_noop:
  assumes "regex_match base = None" and "ext = ''.jpg'' \<or> ext = ''.jpeg''"
  shows "convertToJpeg sh (Str (base @ ext)) autoDelete w = (Inr (base @ ext), w)"
proof -
  have "ext \<in> set formats" using assms(2) by (auto simp: formats_def)
  from regex_match_last [OF assms(1) this]
  have "regex_match (base @ ext) = Some ext" by simp
  then show ?thesis using assms(2) by (auto simp: convertToJpeg_Str)
qed

theorem convertToJpeg_noop_witness:
  "convertToJpeg demo_sharp (Str ''my.photo.jpg'') (Bool True) (demo_world ''my.photo.jpg'' 5)
     = (Inr ''my.photo.jpg'', demo_world ''my.photo.jpg'' 5)"
proof -
  have "regex_match ''my.photo'' = None" by (simp add: formats_def)
  from convertToJpeg_noop [OF this, of "''.jpg''" demo_sharp "Bool True"
      "demo_world ''my.photo.jpg'' 5"]
  show ?thesis by simp
qed

text \<open>
  C5 as stated fails for a path that ends in \<open>.jpg\<close> after an earlier recognised
  extension: \<open>a.png.jpg\<close> is taken for a PNG, read, encoded and written to
  \<open>a.jpeg.jpg\<close>.
\<close>

theorem convertToJpeg_noop_counterexample:
  "''a.png.jpg'' = ''a.png'' @ ''.jpg''
   \<and> fst (convertToJpeg demo_sharp (Str ''a.png.jpg'') (Bool False) (demo_world ''a.png.jpg'' 5))
       = Inr ''a.jpeg.jpg''
   \<and> events (snd (convertToJpeg demo_sharp (Str ''a.png.jpg'') (Bool False)
        (demo_world ''a.png.jpg'' 5)))
       = [ReadFile ''a.png.jpg'', JpegToFile (replicate 5 1) 100 ''a.jpeg.jpg'']
   \<and> files (snd (convertToJpeg demo_sharp (Str ''a.png.jpg'') (Bool False)
        (demo_world ''a.png.jpg'' 5))) ''a.jpeg.jpg'' = Some (replicate 100 0)"
  by (simp add: convertToJpeg_Str formats_def eval_defs)

text \<open>
  C6. The marker is not placed before the extension when the path has a \<open>.\<close> before
  its extension: \<open>path.replace('.', marker)\<close> acts on the first \<open>.\<close> of the path. So
  \<open>my.photo.jpeg\<close> is resized into \<open>my-resized.photo.jpeg\<close> and compressed into
  \<open>my-compressed.photo.jpeg\<close>, not into \<open>my.photo-resized.jpeg\<close> and
  \<open>my.photo-compressed.jpeg\<close>; and \<open>./a.jpeg\<close> is to be resized into
  \<open>-resized./a.jpeg\<close>, a file of a directory that does not exist, so that the
  operation fails.
\<close>

theorem stage_output_paths_misplaced:
  "fst (resizePreservingAspectRatio demo_sharp (Str ''my.photo.jpeg'')
          (maxDimsObj (Num (Fin 1024)) (Num (Fin 1024))) (Bool False)
          (demo_world ''my.photo.jpeg'' 5)) = Inr ''my-resized.photo.jpeg''
   \<and> fst (compressJpeg demo_sharp (Str ''my.photo.jpeg'') (Num (Fin 51)) (Bool False)
          (demo_world ''my.photo.jpeg'' 2000)) = Inr ''my-compressed.photo.jpeg''
   \<and> fst (resizePreservingAspectRatio demo_sharp (Str ''./a.jpeg'')
          (maxDimsObj (Num (Fin 1024)) (Num (Fin 1024))) (Bool False)
          (demo_world ''./a.jpeg'' 5)) = Inl IOFailure
   \<and> events (snd (resizePreservingAspectRatio demo_sharp (Str ''./a.jpeg'')
          (maxDimsObj (Num (Fin 1024)) (Num (Fin 1024))) (Bool False)
          (demo_world ''./a.jpeg'' 5)))
       = [ReadFile ''./a.jpeg'', Metadata (replicate 5 1), ReadFile ''./a.jpeg'',
          ResizeToFile (replicate 5 1) (Fin 1024) (Fin 768) ''-resized./a.jpeg'']"
  by (simp add: eval_defs resizePreservingAspectRatio_def getImageDimensions_def calculate_defs)

subsection \<open>Batch normalizer\<close>

lemma optimizeLoop_outcomes:
  "optimizeLoop sh mw mh ms paths acc w
     = (Inr (acc @ successes (map fst (item_outcomes sh mw mh ms paths w))),
        last (w # map snd (item_outcomes sh mw mh ms paths w)))"
proof (induction paths arbitrary: acc w)
  case Nil
  show ?case by simp
next
  case (Cons path paths)
  obtain r w1 where it: "optimizeItem sh mw mh ms path w = (r, w1)"
    by (cases "optimizeItem sh mw mh ms path w")
  show ?case
  proof (cases r)
    case (Inl e)
    with it Cons.IH [of acc w1] show ?thesis by simp
  next
    case (Inr jp)
    with it Cons.IH [of "acc @ [jp]" w1] show ?thesis by simp
  qed
qed

lemma length_item_outcomes [simp]:
  "length (item_outcomes sh mw mh ms paths w) = length paths"
  by (induction paths arbitrary: w) simp_all

lemma item_outcomes_nth:
  "i < length paths \<Longrightarrow>
     item_outcomes sh mw mh ms paths w ! i
       = optimizeItem sh mw mh ms (paths ! i)
           ((w # map snd (item_outcomes sh mw mh ms paths w)) ! i)"
proof (induction paths arbitrary: w i)
  case Nil
  then show ?case by simp
next
  case (Cons path paths)
  show ?case
  proof (cases i)
    case 0
    then show ?thesis by simp
  next
    case (Suc k)
    with Cons.prems have "k < length paths" by simp
    from Cons.IH [OF this, of "snd (optimizeItem sh mw mh ms path w)"] Suc
    show ?thesis by simp
  qed
qed

lemma successes_append: "successes (xs @ ys) = successes xs @ successes ys"
  by (induction xs rule: successes.induct) simp_all

lemma successes_all:
  "\<forall>r\<in>set rs. \<not> isl r \<Longrightarrow> successes rs = map projr rs"
  by (induction rs rule: successes.induct) simp_all

lemma successes_one_failure:
  assumes j: "j < length rs" and bad: "isl (rs ! j)"
    and good: "\<forall>i<length rs. i \<noteq> j \<longrightarrow> \<not> isl (rs ! i)"
  shows "successes rs = map projr (take j rs @ drop (Suc j) rs)"
proof -
  have split: "rs = take j rs @ rs ! j # drop (Suc j) rs" using j by (rule id_take_nth_drop)
  have a: "\<forall>r\<in>set (take j rs). \<not> isl r"
    using good j by (auto simp: in_set_conv_nth)
  have b: "\<forall>r\<in>set (drop (Suc j) rs). \<not> isl r"
    using good j by (auto simp: in_set_conv_nth)
  obtain e where e: "rs ! j = Inl e" using bad by (cases "rs ! j") simp_all
  have "successes rs = successes (take j rs) @ successes (rs ! j # drop (Suc j) rs)"
    using split successes_append by metis
  also have "\<dots> = map projr (take j rs) @ map projr (drop (Suc j) rs)"
    using successes_all [OF a] successes_all [OF b] e by simp
  finally show ?thesis by simp
qed

lemma convertToJpeg_string:
  "convertToJpeg sh path autoDelete w = (Inr jp, w') \<Longrightarrow> \<exists>p. path = Str p"
  by (cases path) (simp_all add: convertToJpeg_def invalidType_def)


lemma fs_rename_Inr:
  "fs_rename old new w = (Inr u, w') \<Longrightarrow>
     files w old \<noteq> None \<and> files w' new = files w old
     \<and> events w' = events w @ [Rename old new]"
  by (auto simp: fs_rename_def record_event_def split: option.splits if_splits)

lemma optimizeItem_chain:
  assumes "optimizeItem sh mw mh ms path w = (Inr jp, w')"
  shows "\<exists>w1 w2 w3 rp cp.
           convertToJpeg sh path (Bool True) w = (Inr jp, w1)
         \<and> resizePreservingAspectRatio sh (Str jp) (maxDimsObj mw mh) (Bool True) w1 = (Inr rp, w2)
         \<and> compressJpeg sh (Str rp) ms (Bool True) w2 = (Inr cp, w3)
         \<and> files w3 cp \<noteq> None \<and> files w' jp = files w3 cp
         \<and> events w' = events w3 @ [Rename cp jp]"
proof -
  from assms obtain a w1 where c: "convertToJpeg sh path (Bool True) w = (Inr a, w1)"
    and k1: "bind_io (resizePreservingAspectRatio sh (Str a) (maxDimsObj mw mh) (Bool True))
               (\<lambda>resizedPath.
                  bind_io (compressJpeg sh (Str resizedPath) ms (Bool True)) (\<lambda>compressedPath.
                  bind_io (fs_rename compressedPath a) (\<lambda>_. return_io a))) w1 = (Inr jp, w')"
    unfolding optimizeItem_def by (rule bind_io_InrE)
  from k1 obtain rp w2
    where r: "resizePreservingAspectRatio sh (Str a) (maxDimsObj mw mh) (Bool True) w1 = (Inr rp, w2)"
    and k2: "bind_io (compressJpeg sh (Str rp) ms (Bool True)) (\<lambda>compressedPath.
               bind_io (fs_rename compressedPath a) (\<lambda>_. return_io a)) w2 = (Inr jp, w')"
    by (rule bind_io_InrE)
  from k2 obtain cp w3
    where cj: "compressJpeg sh (Str rp) ms (Bool True) w2 = (Inr cp, w3)"
    and k3: "bind_io (fs_rename cp a) (\<lambda>_. return_io a) w3 = (Inr jp, w')"
    by (rule bind_io_InrE)
  from k3 obtain u w4 where rn: "fs_rename cp a w3 = (Inr u, w4)"
    and k4: "return_io a w4 = (Inr jp, w')"
    by (rule bind_io_InrE)
  from k4 have e: "a = jp" "w4 = w'" by simp_all
  from fs_rename_Inr [OF rn] c r cj show ?thesis unfolding e by blast
qed

lemmas batch_defs = convertToJpeg_Str formats_def eval_defs resizePreservingAspectRatio_def
  getImageDimensions_def calculate_defs optimizeItem_def demo_batch_def demo_bounds_def

lemma demo_batch_outcomes:
  "map fst (item_outcomes demo_sharp (Num (Fin 1024)) (Num (Fin 1024)) (Num (Fin 5))
      [Str ''a.png'', Str ''missing.png'', Str ''c.jpg''] demo_batch)
   = [Inr ''a.jpeg'', Inl IOFailure, Inr ''c.jpg'']"
  by (simp add: batch_defs)

lemma demo_batch_files:
  "files (last (demo_batch # map snd (item_outcomes demo_sharp (Num (Fin 1024)) (Num (Fin 1024))
      (Num (Fin 5)) [Str ''a.png'', Str ''missing.png'', Str ''c.jpg''] demo_batch)))
   = [''a.jpeg'' \<mapsto> replicate 4 0, ''c.jpg'' \<mapsto> replicate 4 0]"
  by (simp add: batch_defs fun_eq_iff)

text \<open>
  C9. For an array of paths and an object of bounds, \<open>optimizeImages\<close> does not throw:
  it returns the paths of the items whose processing succeeded, in the order of the
  input, each item being processed in the world the items before it left, whether they
  failed or not. When exactly one item \<open>j\<close> fails, the result is the list of the other
  items' paths, \<open>N - 1\<close> of them. For each item that succeeds, the path returned is the
  one \<open>convertToJpeg\<close> returned for it; \<open>resizePreservingAspectRatio\<close> was run on that
  path and \<open>compressJpeg\<close> on its result, and the file \<open>compressJpeg\<close> returned was
  renamed to the path returned, where its contents are when the item is done.
\<close>

theorem optimizeImages_isolates_failures:
  assumes mw: "destructure (Obj m) ''maxWidth'' = Inr mw"
    and mh: "destructure (Obj m) ''maxHeight'' = Inr mh"
    and ms: "destructure (Obj m) ''maxSize'' = Inr ms"
    and outs: "outs = item_outcomes sh mw mh ms paths w"
  shows "optimizeImages sh (Arr paths) (Obj m) w
           = (Inr (successes (map fst outs)), last (w # map snd outs))
       \<and> length outs = length paths
       \<and> (\<forall>i<length paths.
             outs ! i = optimizeItem sh mw mh ms (paths ! i) ((w # map snd outs) ! i))
       \<and> (\<forall>j<length paths.
             isl (fst (outs ! j)) \<and> (\<forall>i<length paths. i \<noteq> j \<longrightarrow> \<not> isl (fst (outs ! i))) \<longrightarrow>
             successes (map fst outs)
               = map projr (take j (map fst outs) @ drop (Suc j) (map fst outs))
             \<and> length (successes (map fst outs)) = length paths - 1)
       \<and> (\<forall>i<length paths. \<forall>jp wi'. outs ! i = (Inr jp, wi') \<longrightarrow>
             (\<exists>p w1 w2 w3 rp cp.
                paths ! i = Str p
              \<and> convertToJpeg sh (Str p) (Bool True) ((w # map snd outs) ! i) = (Inr jp, w1)
              \<and> resizePreservingAspectRatio sh (Str jp) (maxDimsObj mw mh) (Bool True) w1
                  = (Inr rp, w2)
              \<and> compressJpeg sh (Str rp) ms (Bool True) w2 = (Inr cp, w3)
              \<and> files w3 cp \<noteq> None \<and> files wi' jp = files w3 cp
              \<and> events wi' = events w3 @ [Rename cp jp]))"
proof (intro conjI allI impI)
  have "optimizeImages sh (Arr paths) (Obj m) w = optimizeLoop sh mw mh ms paths [] w"
    using mw mh ms by (simp add: optimizeImages_def)
  then show "optimizeImages sh (Arr paths) (Obj m) w
           = (Inr (successes (map fst outs)), last (w # map snd outs))"
    by (simp add: optimizeLoop_outcomes outs)
next
  show len: "length outs = length paths" by (simp add: outs)
  fix j
  assume j: "j < length paths"
    and one: "isl (fst (outs ! j)) \<and> (\<forall>i<length paths. i \<noteq> j \<longrightarrow> \<not> isl (fst (outs ! i)))"
  have eq: "successes (map fst outs)
      = map projr (take j (map fst outs) @ drop (Suc j) (map fst outs))"
    using successes_one_failure [of j "map fst outs"] j one len by simp
  then show "successes (map fst outs)
      = map projr (take j (map fst outs) @ drop (Suc j) (map fst outs))" .
  show "length (successes (map fst outs)) = length paths - 1"
    unfolding eq using j len by simp
next
  fix i
  assume i: "i < length paths"
  show "outs ! i = optimizeItem sh mw mh ms (paths ! i) ((w # map snd outs) ! i)"
    unfolding outs by (rule item_outcomes_nth [OF i])
next
  fix i jp wi'
  assume i: "i < length paths" and ok: "outs ! i = (Inr jp, wi')"
  let ?wi = "(w # map snd outs) ! i"
  have it: "optimizeItem sh mw mh ms (paths ! i) ?wi = (Inr jp, wi')"
    using item_outcomes_nth [OF i, of sh mw mh ms w] ok unfolding outs by simp
  from optimizeItem_chain [OF it] obtain w1 w2 w3 rp cp where
    ch: "convertToJpeg sh (paths ! i) (Bool True) ?wi = (Inr jp, w1)"
      "resizePreservingAspectRatio sh (Str jp) (maxDimsObj mw mh) (Bool True) w1 = (Inr rp, w2)"
      "compressJpeg sh (Str rp) ms (Bool True) w2 = (Inr cp, w3)"
      "files w3 cp \<noteq> None" "files wi' jp = files w3 cp"
      "events wi' = events w3 @ [Rename cp jp]"
    by blast
  from convertToJpeg_string [OF ch(1)] obtain p where p: "paths ! i = Str p" by blast
  show "\<exists>p w1 w2 w3 rp cp.
                paths ! i = Str p
              \<and> convertToJpeg sh (Str p) (Bool True) ((w # map snd outs) ! i) = (Inr jp, w1)
              \<and> resizePreservingAspectRatio sh (Str jp) (maxDimsObj mw mh) (Bool True) w1
                  = (Inr rp, w2)
              \<and> compressJpeg sh (Str rp) ms (Bool True) w2 = (Inr cp, w3)
              \<and> files w3 cp \<noteq> None \<and> files wi' jp = files w3 cp
              \<and> events wi' = events w3 @ [Rename cp jp]"
    using ch p by auto
qed

theorem optimizeImages_isolates_failures_witness:
  "fst (optimizeImages demo_sharp (Arr [Str ''a.png'', Str ''missing.png'', Str ''c.jpg''])
          (Obj demo_bounds) demo_batch) = Inr [''a.jpeg'', ''c.jpg'']
   \<and> length [''a.jpeg'', ''c.jpg''] = length [Str ''a.png'', Str ''missing.png'', Str ''c.jpg''] - 1
   \<and> files (snd (optimizeImages demo_sharp (Arr [Str ''a.png'', Str ''missing.png'', Str ''c.jpg''])
          (Obj demo_bounds) demo_batch))
       = [''a.jpeg'' \<mapsto> the (jpeg demo_sharp (replicate 10 0) 4),
          ''c.jpg'' \<mapsto> the (jpeg demo_sharp (replicate 10 1) 4)]"
proof -
  have mw: "destructure (Obj demo_bounds) ''maxWidth'' = Inr (Num (Fin 1024))"
    and mh: "destructure (Obj demo_bounds) ''maxHeight'' = Inr (Num (Fin 1024))"
    and ms: "destructure (Obj demo_bounds) ''maxSize'' = Inr (Num (Fin 5))"
    by (simp_all add: demo_bounds_def)
  have j: "jpeg demo_sharp (replicate 10 0) 4 = Some (replicate 4 0)"
    "jpeg demo_sharp (replicate 10 1) 4 = Some (replicate 4 0)"
    by (simp_all add: demo_sharp_def)
  have s: "successes [Inr ''a.jpeg'', Inl IOFailure, Inr ''c.jpg''] = [''a.jpeg'', ''c.jpg'']"
    by simp
  note r = optimizeImages_isolates_failures [OF mw mh ms refl, of demo_sharp
      "[Str ''a.png'', Str ''missing.png'', Str ''c.jpg'']" demo_batch, THEN conjunct1,
      unfolded demo_batch_outcomes s]
  have a: "fst (optimizeImages demo_sharp (Arr [Str ''a.png'', Str ''missing.png'', Str ''c.jpg''])
          (Obj demo_bounds) demo_batch) = Inr [''a.jpeg'', ''c.jpg'']"
    by (simp only: r fst_conv)
  have b: "files (snd (optimizeImages demo_sharp
          (Arr [Str ''a.png'', Str ''missing.png'', Str ''c.jpg'']) (Obj demo_bounds) demo_batch))
       = [''a.jpeg'' \<mapsto> replicate 4 0, ''c.jpg'' \<mapsto> replicate 4 0]"
    by (simp only: r snd_conv demo_batch_files)
  show ?thesis using a b by (simp add: j)
qed

subsection \<open>Validation\<close>

lemma invalidPositive_simps [simp]:
  "invalidPositive n ''string'' (Str s) = Inr ()"
  "invalidPositive n ''object'' (Obj kvs) = Inr ()"
  "invalidPositive n ''array'' (Arr xs) = Inr ()"
  "invalidPositive n ''number'' v = (if positiveNumber v then Inr () else Inl InvalidArgument)"
  by (simp_all add: invalidPositive_def) (cases v; simp)









end
